theory Spec2Isabelle
  imports Complex_Main "HOL-Library.Multiset"
begin

section \<open>The MCTS player of agent.h\<close>

text \<open>
  A shallow embedding of \<^verbatim>\<open>src/agent.h\<close>: the agent constructors, the random player,
  and the four phases of \<^verbatim>\<open>MCTS_player\<close> (selection, expansion, simulation,
  backpropagation) with the controller \<^verbatim>\<open>Simulation\<close>.

  The headers \<^verbatim>\<open>board.h\<close> and \<^verbatim>\<open>action.h\<close> are not part of the sources, and the
  behaviour of \<^verbatim>\<open>std::default_random_engine\<close>, \<^verbatim>\<open>std::shuffle\<close> and \<^verbatim>\<open>std::stod\<close> is
  that of the C++ library. All of these are parameters of the model, collected in the
  record \<open>env\<close>.
\<close>

subsection \<open>Boards, actions and the library parameters\<close>

text \<open>The values of \<^verbatim>\<open>board::piece_type\<close> that agent.h uses.\<close>

datatype piece_type = empty | black | white

text \<open>
  An \<^verbatim>\<open>action\<close> is either the default-constructed \<^verbatim>\<open>action()\<close> or a placement
  \<^verbatim>\<open>action::place(i, who)\<close>.
\<close>

datatype action = noaction | place nat piece_type

datatype error =
    invalid_argument string
  | null_pointer
  | uninitialized_pointer
  | index_out_of_range

record ('b, 'e) env =
  cells :: nat
    \<comment> \<open>\<^verbatim>\<open>board::size_x * board::size_y\<close>\<close>
  new_board :: 'b
    \<comment> \<open>the default-constructed \<^verbatim>\<open>board\<close>\<close>
  apply_place :: "nat \<Rightarrow> piece_type \<Rightarrow> 'b \<Rightarrow> 'b option"
    \<comment> \<open>\<^verbatim>\<open>action::place(i, c).apply(b)\<close>: \<open>Some b'\<close> when the result is \<^verbatim>\<open>board::legal\<close>,
        with \<open>b'\<close> the board after the move\<close>
  default_engine :: 'e
    \<comment> \<open>the default-constructed \<^verbatim>\<open>std::default_random_engine\<close>\<close>
  seed_engine :: "string \<Rightarrow> 'e option"
    \<comment> \<open>\<^verbatim>\<open>engine.seed(int(std::stod(value)))\<close>; \<open>None\<close> when \<^verbatim>\<open>std::stod\<close> throws\<close>
  shuffle :: "action list \<Rightarrow> 'e \<Rightarrow> action list \<times> 'e"
    \<comment> \<open>\<^verbatim>\<open>std::shuffle(space.begin(), space.end(), engine)\<close>: the shuffled vector and the
        engine afterwards\<close>

text \<open>
  Modelled from the spec: \<^verbatim>\<open>action::apply\<close> of action.h is not in the sources. Applying a
  placement is the board's placement; applying the default action, the no-op/pass
  sentinel of the spec, is never legal.
\<close>

definition apply_action :: "('b, 'e) env \<Rightarrow> action \<Rightarrow> 'b \<Rightarrow> 'b option" where
  "apply_action E a s = (case a of noaction \<Rightarrow> None | place i c \<Rightarrow> apply_place E i c s)"

subsection \<open>Floating-point values\<close>

text \<open>
  The values of the C++ \<^verbatim>\<open>float\<close> and \<^verbatim>\<open>double\<close> expressions, with the IEEE special
  values kept and the finite values idealised as reals (rounding is not modelled). Two
  scores that differ by less than the rounding compare differently in the code, so what
  is said below about the child of greatest score is said of the stores of a run of the
  loop, where each child has won none or all of its visits.
\<close>

datatype flt = NaN | NInf | Fin real | PInf

fun fgt :: "flt \<Rightarrow> flt \<Rightarrow> bool" where
  "fgt NaN _ = False"
| "fgt _ NaN = False"
| "fgt NInf _ = False"
| "fgt (Fin x) NInf = True"
| "fgt (Fin x) (Fin y) = (y < x)"
| "fgt (Fin x) PInf = False"
| "fgt PInf PInf = False"
| "fgt PInf _ = True"

text \<open>\<^verbatim>\<open>(float)w / v\<close> for integers \<open>w\<close>, \<open>v\<close>.\<close>

definition ratio :: "int \<Rightarrow> int \<Rightarrow> flt" where
  "ratio w v =
     (if v \<noteq> 0 then Fin (real_of_int w / real_of_int v)
      else if w = 0 then NaN else if 0 < w then PInf else NInf)"

text \<open>\<^verbatim>\<open>log(n)\<close> for an integer \<open>n\<close>.\<close>

definition flog :: "int \<Rightarrow> flt" where
  "flog n = (if 0 < n then Fin (ln (real_of_int n)) else if n = 0 then NInf else NaN)"

text \<open>\<^verbatim>\<open>2 * x / v\<close> for a double \<open>x\<close> and a non-zero integer \<open>v\<close>.\<close>

fun twice_over :: "flt \<Rightarrow> int \<Rightarrow> flt" where
  "twice_over NaN v = NaN"
| "twice_over (Fin x) v = Fin (2 * x / real_of_int v)"
| "twice_over NInf v = (if 0 < v then NInf else PInf)"
| "twice_over PInf v = (if 0 < v then PInf else NInf)"

fun fsqrt :: "flt \<Rightarrow> flt" where
  "fsqrt NaN = NaN"
| "fsqrt NInf = NaN"
| "fsqrt (Fin x) = (if x < 0 then NaN else Fin (sqrt x))"
| "fsqrt PInf = PInf"

fun fadd :: "flt \<Rightarrow> flt \<Rightarrow> flt" where
  "fadd (Fin x) (Fin y) = Fin (x + y)"
| "fadd NaN _ = NaN"
| "fadd _ NaN = NaN"
| "fadd PInf NInf = NaN"
| "fadd NInf PInf = NaN"
| "fadd PInf _ = PInf"
| "fadd _ PInf = PInf"
| "fadd NInf _ = NInf"
| "fadd _ NInf = NInf"

text \<open>
  The score of lines 137-138,
  \<^verbatim>\<open>(float)current->win / current->visit + sqrt(2 * log(root->visit) / current->visit)\<close>,
  for \<open>pv = root->visit\<close>, \<open>w = current->win\<close> and \<open>v = current->visit\<close>; it is evaluated
  only where \<open>v \<noteq> 0\<close>.
\<close>

definition uct :: "int \<Rightarrow> int \<Rightarrow> int \<Rightarrow> flt" where
  "uct pv w v = fadd (ratio w v) (fsqrt (twice_over (flog pv) v))"

subsection \<open>Agents\<close>

text \<open>The whitespace that \<^verbatim>\<open>ss >> pair\<close> skips.\<close>

definition isspace :: "char \<Rightarrow> bool" where
  "isspace c \<longleftrightarrow> c \<in> set [CHR '' '', CHR 0x09, CHR 0x0A, CHR 0x0B, CHR 0x0C, CHR 0x0D]"

function tokens :: "string \<Rightarrow> string list" where
  "tokens [] = []"
| "tokens (c # cs) =
     (if isspace c then tokens cs
      else (c # takeWhile (\<lambda>d. \<not> isspace d) cs) # tokens (dropWhile (\<lambda>d. \<not> isspace d) cs))"
  by pat_completeness auto
termination
  by (relation "measure length") (auto simp: less_Suc_eq_le length_dropWhile_le)

text \<open>
  \<^verbatim>\<open>pair.substr(0, pair.find('='))\<close> and \<^verbatim>\<open>pair.substr(pair.find('=') + 1)\<close>; where there is
  no \<^verbatim>\<open>'='\<close>, \<^verbatim>\<open>find\<close> is \<^verbatim>\<open>npos\<close> and both are the whole token.
\<close>

definition key_of :: "string \<Rightarrow> string" where
  "key_of pair = takeWhile (\<lambda>d. d \<noteq> CHR ''='') pair"

definition value_of :: "string \<Rightarrow> string" where
  "value_of pair =
     (if CHR ''='' \<in> set pair then tl (dropWhile (\<lambda>d. d \<noteq> CHR ''='') pair) else pair)"

text \<open>The constructor of \<^verbatim>\<open>agent\<close>: the map \<^verbatim>\<open>meta\<close>.\<close>

definition agent :: "string \<Rightarrow> (string \<rightharpoonup> string)" where
  "agent args =
     fold (\<lambda>pair m. m(key_of pair \<mapsto> value_of pair))
       (tokens (''name=unknown role=unknown '' @ args)) Map.empty"

record 'e random_player =
  meta :: "string \<rightharpoonup> string"
  space :: "action list"
  who :: piece_type
  engine :: 'e

text \<open>\<^verbatim>\<open>meta.at(key)\<close> of \<^verbatim>\<open>property\<close>; the constructor always sets both keys read here.\<close>

definition property :: "(string \<rightharpoonup> string) \<Rightarrow> string \<Rightarrow> string" where
  "property m k = (case m k of Some v \<Rightarrow> v | None \<Rightarrow> [])"

text \<open>The constructor of \<^verbatim>\<open>random_player\<close>, lines 75-87.\<close>

definition random_player_init :: "('b, 'e) env \<Rightarrow> string \<Rightarrow> error + 'e random_player" where
  "random_player_init E args =
     (let m = agent args in
      case (case m ''seed'' of None \<Rightarrow> Some (default_engine E) | Some v \<Rightarrow> seed_engine E v) of
        None \<Rightarrow> Inl (invalid_argument ''stod'')
      | Some e \<Rightarrow>
          if \<exists>c \<in> set (property m ''name''). c \<in> set ''[]():; ''
          then Inl (invalid_argument (''invalid name: '' @ property m ''name''))
          else
            let w = (if property m ''role'' = ''white'' then white
                     else if property m ''role'' = ''black'' then black else empty)
            in if w = empty
               then Inl (invalid_argument (''invalid role: '' @ property m ''role''))
               else Inr \<lparr>meta = m, space = map (\<lambda>i. place i w) [0 ..< cells E],
                         who = w, engine = e\<rparr>)"

text \<open>The first move of the vector that is legal on \<open>state\<close>, else \<^verbatim>\<open>action()\<close>.\<close>

fun first_legal :: "('b, 'e) env \<Rightarrow> action list \<Rightarrow> 'b \<Rightarrow> action" where
  "first_legal E [] state = noaction"
| "first_legal E (mv # rest) state =
     (case apply_action E mv state of Some after \<Rightarrow> mv | None \<Rightarrow> first_legal E rest state)"

text \<open>\<^verbatim>\<open>random_player::take_action\<close>, lines 89-97: the action and the player afterwards.\<close>

definition random_take_action ::
  "('b, 'e) env \<Rightarrow> ('e, 'x) random_player_scheme \<Rightarrow> 'b
    \<Rightarrow> action \<times> ('e, 'x) random_player_scheme" where
  "random_take_action E p state =
     (let (sp, e) = shuffle E (space p) (engine p)
      in (first_legal E sp state, p\<lparr>space := sp, engine := e\<rparr>))"

record 'e MCTS_player = "'e random_player" +
  sim_counts :: int

text \<open>The constructor of \<^verbatim>\<open>MCTS_player\<close>, lines 119-123.\<close>

definition MCTS_player_init :: "('b, 'e) env \<Rightarrow> string \<Rightarrow> error + 'e MCTS_player" where
  "MCTS_player_init E args =
     (case random_player_init E args of
        Inl err \<Rightarrow> Inl err
      | Inr p \<Rightarrow> Inr (random_player.extend p \<lparr>sim_counts = 100\<rparr>))"

subsection \<open>The search tree\<close>

text \<open>
  Nodes live in a store addressed by natural numbers; \<^verbatim>\<open>new Node()\<close> takes the next
  free address. A \<^verbatim>\<open>Node *\<close> is a \<open>nat option\<close>, with \<open>None\<close> for \<^verbatim>\<open>nullptr\<close>. The
  field \<^verbatim>\<open>b\<close> of the source is \<open>bd\<close> here, and the variable \<^verbatim>\<open>root\<close> is \<open>rt\<close>.
\<close>

record 'b Node =
  visit :: int
  win :: int
  bd :: 'b
  move :: action
  parent :: "nat option"
  child :: "nat list"

record 'b heap =
  nodes :: "nat \<Rightarrow> 'b Node"
  top :: nat

text \<open>The constructor of \<^verbatim>\<open>Node\<close>, lines 107-110.\<close>

definition Node_init :: "('b, 'e) env \<Rightarrow> 'b Node" where
  "Node_init E =
     \<lparr>visit = 0, win = 0, bd = new_board E, move = noaction, parent = None, child = []\<rparr>"

definition empty_heap :: "('b, 'e) env \<Rightarrow> 'b heap" where
  "empty_heap E = \<lparr>nodes = (\<lambda>_. Node_init E), top = 0\<rparr>"

definition new_Node :: "('b, 'e) env \<Rightarrow> 'b heap \<Rightarrow> nat \<times> 'b heap" where
  "new_Node E h = (top h, h\<lparr>nodes := (nodes h)(top h := Node_init E), top := Suc (top h)\<rparr>)"

definition upd :: "nat \<Rightarrow> ('b Node \<Rightarrow> 'b Node) \<Rightarrow> 'b heap \<Rightarrow> 'b heap" where
  "upd p f h = h\<lparr>nodes := (nodes h)(p := f (nodes h p))\<rparr>"

subsection \<open>Selection, lines 128-146\<close>

text \<open>
  The loop over \<^verbatim>\<open>root->child\<close>: it either returns a child at once, or ends with the
  final \<^verbatim>\<open>bestNode\<close>.
\<close>

datatype scan_result = Return nat | Done "nat option"

fun scan :: "'b heap \<Rightarrow> nat \<Rightarrow> nat list \<Rightarrow> nat option \<Rightarrow> flt \<Rightarrow> scan_result" where
  "scan h rt [] bestNode bestValue = Done bestNode"
| "scan h rt (current # rest) bestNode bestValue =
     (if visit (nodes h current) = 0 then Return current
      else
        let val = uct (visit (nodes h rt)) (win (nodes h current)) (visit (nodes h current))
        in if fgt val bestValue then scan h rt rest (Some current) val
           else scan h rt rest bestNode bestValue)"

partial_function (option) selection :: "'b heap \<Rightarrow> nat option \<Rightarrow> (error + nat) option" where
  "selection h rt =
     (case rt of
        None \<Rightarrow> Some (Inl null_pointer)
      | Some r \<Rightarrow>
          if child (nodes h r) = [] then Some (Inr r)
          else (case scan h r (child (nodes h r)) None (Fin (- 99999)) of
                  Return current \<Rightarrow> Some (Inr current)
                | Done bestNode \<Rightarrow> selection h bestNode))"

declare selection.simps [code]

subsection \<open>Expansion, lines 147-159\<close>

fun add_children :: "('b, 'e) env \<Rightarrow> nat \<Rightarrow> action list \<Rightarrow> 'b heap \<Rightarrow> 'b heap" where
  "add_children E node [] h = h"
| "add_children E node (mv # rest) h =
     (case apply_action E mv (bd (nodes h node)) of
        None \<Rightarrow> add_children E node rest h
      | Some after \<Rightarrow>
          let (newchild, h1) = new_Node E h;
              h2 = upd newchild (\<lambda>n. n\<lparr>parent := Some node, move := mv, bd := after\<rparr>) h1;
              h3 = upd node (\<lambda>n. n\<lparr>child := child n @ [newchild]\<rparr>) h2
          in add_children E node rest h3)"

definition expansion ::
  "('b, 'e) env \<Rightarrow> 'e MCTS_player \<Rightarrow> nat \<Rightarrow> 'b heap \<Rightarrow> 'e MCTS_player \<times> 'b heap" where
  "expansion E this node h =
     (let (sp, e) = shuffle E (space this) (engine this)
      in (this\<lparr>space := sp, engine := e\<rparr>, add_children E node sp h))"

subsection \<open>Simulation of one game, lines 160-183\<close>

text \<open>
  The \<^verbatim>\<open>while(true)\<close> loop; \<open>None\<close> is a loop that never ends. Each player keeps its own
  vector and engine across its turns.
\<close>

partial_function (option) rollout ::
  "('b, 'e) env \<Rightarrow> 'e random_player \<Rightarrow> 'e random_player \<Rightarrow> bool \<Rightarrow> 'b \<Rightarrow> bool option" where
  "rollout E myself opponent MYTURN state =
     (if MYTURN
      then (case random_take_action E myself state of
              (mv, myself') \<Rightarrow>
                (case apply_action E mv state of
                   None \<Rightarrow> Some (\<not> MYTURN)
                 | Some state' \<Rightarrow> rollout E myself' opponent (\<not> MYTURN) state'))
      else (case random_take_action E opponent state of
              (mv, opponent') \<Rightarrow>
                (case apply_action E mv state of
                   None \<Rightarrow> Some (\<not> MYTURN)
                 | Some state' \<Rightarrow> rollout E myself opponent' (\<not> MYTURN) state')))"

declare rollout.simps [code]

text \<open>
  The two players of lines 161-168. Where \<^verbatim>\<open>who\<close> is neither colour both pointers stay
  uninitialised.
\<close>

definition sim_players ::
  "('b, 'e) env \<Rightarrow> piece_type \<Rightarrow> error + ('e random_player \<times> 'e random_player)" where
  "sim_players E w =
     (if w = black then
        (case random_player_init E ''name=black  role=black'' of
           Inl err \<Rightarrow> Inl err
         | Inr myself \<Rightarrow>
             (case random_player_init E ''name=white  role=white'' of
                Inl err \<Rightarrow> Inl err
              | Inr opponent \<Rightarrow> Inr (myself, opponent)))
      else if w = white then
        (case random_player_init E ''name=white  role=white'' of
           Inl err \<Rightarrow> Inl err
         | Inr myself \<Rightarrow>
             (case random_player_init E ''name=black  role=black'' of
                Inl err \<Rightarrow> Inl err
              | Inr opponent \<Rightarrow> Inr (myself, opponent)))
      else Inl uninitialized_pointer)"

definition oneSim ::
  "('b, 'e) env \<Rightarrow> 'e MCTS_player \<Rightarrow> 'b heap \<Rightarrow> nat \<Rightarrow> (error + bool) option" where
  "oneSim E this h node =
     (case sim_players E (who this) of
        Inl err \<Rightarrow> Some (Inl err)
      | Inr (myself, opponent) \<Rightarrow>
          map_option Inr (rollout E myself opponent False (bd (nodes h node))))"

subsection \<open>Backpropagation, lines 184-190\<close>

partial_function (option) backPropagation ::
  "'b heap \<Rightarrow> nat option \<Rightarrow> int \<Rightarrow> 'b heap option" where
  "backPropagation h current w =
     (case current of
        None \<Rightarrow> Some h
      | Some c \<Rightarrow>
          backPropagation
            (upd c (\<lambda>n. n\<lparr>win := win n + w\<rparr>) (upd c (\<lambda>n. n\<lparr>visit := visit n + 1\<rparr>) h))
            (parent (nodes h c)) w)"

declare backPropagation.simps [code]

subsection \<open>The controller, lines 191-223\<close>

text \<open>One pass of the body of the loop of lines 197-209.\<close>

definition iteration ::
  "('b, 'e) env \<Rightarrow> 'e MCTS_player \<Rightarrow> nat \<Rightarrow> 'b heap \<Rightarrow> (error + 'b heap) option" where
  "iteration E this rt h =
     (case selection h (Some rt) of
        None \<Rightarrow> None
      | Some (Inl err) \<Rightarrow> Some (Inl err)
      | Some (Inr current) \<Rightarrow>
          (case oneSim E this h current of
             None \<Rightarrow> None
           | Some (Inl err) \<Rightarrow> Some (Inl err)
           | Some (Inr r) \<Rightarrow>
               map_option Inr (backPropagation h (Some current) (if r then 1 else 0))))"

text \<open>\<^verbatim>\<open>for(int i = sim_counts; i > 0; --i)\<close>.\<close>

function sim_loop ::
  "('b, 'e) env \<Rightarrow> 'e MCTS_player \<Rightarrow> nat \<Rightarrow> int \<Rightarrow> 'b heap \<Rightarrow> (error + 'b heap) option" where
  "sim_loop E this rt i h =
     (if i > 0 then
        (case iteration E this rt h of
           None \<Rightarrow> None
         | Some (Inl err) \<Rightarrow> Some (Inl err)
         | Some (Inr h') \<Rightarrow> sim_loop E this rt (i - 1) h')
      else Some (Inr h))"
  by pat_completeness auto
termination
  by (relation "measure (\<lambda>(E, this, rt, i, h). nat i)") auto

declare sim_loop.simps [simp del]

text \<open>
  The loop of lines 212-220 over the children of the root. \<^verbatim>\<open>winRate > bestWinRate\<close> is
  false whenever \<^verbatim>\<open>bestWinRate\<close> is not a number.
\<close>

fun best_child :: "'b heap \<Rightarrow> nat list \<Rightarrow> flt \<Rightarrow> action \<Rightarrow> action" where
  "best_child h [] bestWinRate bestmove = bestmove"
| "best_child h (c # rest) bestWinRate bestmove =
     (if visit (nodes h c) = 0 then best_child h rest bestWinRate bestmove
      else
        let winRate = ratio (win (nodes h c)) (visit (nodes h c))
        in if fgt winRate bestWinRate then best_child h rest winRate (move (nodes h c))
           else best_child h rest bestWinRate bestmove)"

text \<open>Lines 210-222; \<^verbatim>\<open>root->child[0]\<close> is read first.\<close>

definition decide :: "'b heap \<Rightarrow> nat \<Rightarrow> error + action" where
  "decide h rt =
     (case child (nodes h rt) of
        [] \<Rightarrow> Inl index_out_of_range
      | c0 # _ \<Rightarrow>
          Inr (best_child h (child (nodes h rt))
                 (ratio (win (nodes h c0)) (visit (nodes h c0))) (move (nodes h c0))))"

text \<open>Lines 192-194: the root, its board and its expansion.\<close>

definition build_root ::
  "('b, 'e) env \<Rightarrow> 'e MCTS_player \<Rightarrow> 'b \<Rightarrow> nat \<times> 'e MCTS_player \<times> 'b heap" where
  "build_root E this state =
     (let (rt, h0) = new_Node E (empty_heap E);
          h1 = upd rt (\<lambda>n. n\<lparr>bd := state\<rparr>) h0;
          (this', h2) = expansion E this rt h1
      in (rt, this', h2))"

text \<open>
  \<^verbatim>\<open>Simulation\<close>: the returned action, together with the player and the store as the
  call leaves them. The tree is built in a store of its own.
\<close>

definition Simulation ::
  "('b, 'e) env \<Rightarrow> 'e MCTS_player \<Rightarrow> 'b
    \<Rightarrow> (error + action \<times> 'e MCTS_player \<times> 'b heap) option" where
  "Simulation E this state =
     (let (rt, this', h2) = build_root E this state
      in if child (nodes h2 rt) = [] then Some (Inr (noaction, this', h2))
         else (case sim_loop E this' rt (sim_counts this') h2 of
                 None \<Rightarrow> None
               | Some (Inl err) \<Rightarrow> Some (Inl err)
               | Some (Inr h3) \<Rightarrow>
                   (case decide h3 rt of
                      Inl err \<Rightarrow> Some (Inl err)
                    | Inr bestmove \<Rightarrow> Some (Inr (bestmove, this', h3)))))"

text \<open>\<^verbatim>\<open>MCTS_player::take_action\<close>, lines 124-126.\<close>

definition take_action ::
  "('b, 'e) env \<Rightarrow> 'e MCTS_player \<Rightarrow> 'b
    \<Rightarrow> (error + action \<times> 'e MCTS_player \<times> 'b heap) option" where
  "take_action E this state = Simulation E this state"

section \<open>Notions used to state the properties\<close>

subsection \<open>Contracts of the parameters\<close>

text \<open>\<^verbatim>\<open>std::shuffle\<close> permutes the vector.\<close>

definition shuffle_ok :: "('b, 'e) env \<Rightarrow> bool" where
  "shuffle_ok E \<longleftrightarrow> (\<forall>xs e. mset (fst (shuffle E xs e)) = mset xs)"

text \<open>
  A measure of boards that every legal placement decreases, as the number of empty cells
  does on a board where stones are only ever added.
\<close>

definition decreasing :: "('b, 'e) env \<Rightarrow> ('b \<Rightarrow> nat) \<Rightarrow> bool" where
  "decreasing E m \<longleftrightarrow> (\<forall>i c s s'. apply_place E i c s = Some s' \<longrightarrow> m s' < m s)"

text \<open>A player of colour \<open>w\<close> whose vector holds the placements of \<open>w\<close> on every cell.\<close>

definition player_ok :: "('b, 'e) env \<Rightarrow> piece_type \<Rightarrow> ('e, 'x) random_player_scheme \<Rightarrow> bool" where
  "player_ok E w p \<longleftrightarrow> who p = w \<and> w \<noteq> empty \<and> set (space p) = (\<lambda>i. place i w) ` {..< cells E}"

text \<open>Colour \<open>c\<close> has no legal placement on \<open>s\<close>.\<close>

definition no_move :: "('b, 'e) env \<Rightarrow> piece_type \<Rightarrow> 'b \<Rightarrow> bool" where
  "no_move E c s \<longleftrightarrow> (\<forall>i < cells E. apply_place E i c s = None)"

text \<open>
  The board after the placements on the cells \<open>is\<close>, made in strict alternation by the
  colours \<open>c\<close>, \<open>d\<close>, \<open>c\<close>, ... with \<open>c\<close> first; \<open>None\<close> when one of them is illegal.
\<close>

fun plays :: "('b, 'e) env \<Rightarrow> piece_type \<Rightarrow> piece_type \<Rightarrow> nat list \<Rightarrow> 'b \<Rightarrow> 'b option" where
  "plays E c d [] s = Some s"
| "plays E c d (i # rest) s =
     (case apply_place E i c s of None \<Rightarrow> None | Some s' \<Rightarrow> plays E d c rest s')"

subsection \<open>Walks and statistics\<close>

text \<open>The update of one node by backpropagation.\<close>

definition bump :: "int \<Rightarrow> 'b Node \<Rightarrow> 'b Node" where
  "bump w n = n\<lparr>visit := visit n + 1, win := win n + w\<rparr>"

text \<open>
  \<open>chain h p ps\<close>: following the \<^verbatim>\<open>parent\<close> links from \<open>p\<close> visits exactly the nodes \<open>ps\<close>, in
  this order, and ends at a node without parent.
\<close>

fun chain :: "'b heap \<Rightarrow> nat option \<Rightarrow> nat list \<Rightarrow> bool" where
  "chain h p [] = (p = None)"
| "chain h p (c # cs) = (p = Some c \<and> chain h (parent (nodes h c)) cs)"

text \<open>The score of a child \<open>c\<close> of \<open>r\<close> as the specification writes it.\<close>

definition spec_score :: "'b heap \<Rightarrow> nat \<Rightarrow> nat \<Rightarrow> real" where
  "spec_score h r c =
     real_of_int (win (nodes h c)) / real_of_int (visit (nodes h c))
     + sqrt (2 * ln (real_of_int (visit (nodes h r))) / real_of_int (visit (nodes h c)))"

text \<open>The win rate of a node as the specification writes it.\<close>

definition spec_rate :: "'b heap \<Rightarrow> nat \<Rightarrow> real" where
  "spec_rate h c = real_of_int (win (nodes h c)) / real_of_int (visit (nodes h c))"

subsection \<open>The divisors that the code evaluates\<close>

text \<open>
  The loop of selection divides twice by \<^verbatim>\<open>current->visit\<close> for every child before the
  first unvisited one.
\<close>

fun scan_divisors :: "'b heap \<Rightarrow> nat list \<Rightarrow> int list" where
  "scan_divisors h [] = []"
| "scan_divisors h (current # rest) =
     (if visit (nodes h current) = 0 then []
      else visit (nodes h current) # visit (nodes h current) # scan_divisors h rest)"

partial_function (option) selection_divisors :: "'b heap \<Rightarrow> nat option \<Rightarrow> int list option" where
  "selection_divisors h rt =
     (case rt of
        None \<Rightarrow> Some []
      | Some r \<Rightarrow>
          if child (nodes h r) = [] then Some []
          else (case scan h r (child (nodes h r)) None (Fin (- 99999)) of
                  Return current \<Rightarrow> Some (scan_divisors h (child (nodes h r)))
                | Done bestNode \<Rightarrow>
                    Option.bind (selection_divisors h bestNode)
                      (\<lambda>ds. Some (scan_divisors h (child (nodes h r)) @ ds))))"

declare selection_divisors.simps [code]

text \<open>Line 210 divides by the visits of the first child, line 214 by those of every
  visited child.\<close>

fun best_child_divisors :: "'b heap \<Rightarrow> nat list \<Rightarrow> int list" where
  "best_child_divisors h [] = []"
| "best_child_divisors h (c # rest) =
     (if visit (nodes h c) = 0 then best_child_divisors h rest
      else visit (nodes h c) # best_child_divisors h rest)"

definition decide_divisors :: "'b heap \<Rightarrow> nat \<Rightarrow> int list" where
  "decide_divisors h rt =
     (case child (nodes h rt) of
        [] \<Rightarrow> []
      | c0 # _ \<Rightarrow> visit (nodes h c0) # best_child_divisors h (child (nodes h rt)))"

subsection \<open>Shapes of the tree\<close>

text \<open>Every node has between zero and \<^verbatim>\<open>visit\<close> wins.\<close>

definition counts_ok :: "'b heap \<Rightarrow> bool" where
  "counts_ok h \<longleftrightarrow> (\<forall>p. 0 \<le> win (nodes h p) \<and> win (nodes h p) \<le> visit (nodes h p))"

text \<open>
  A root \<open>rt\<close> over the board \<open>state\<close> whose children are leaves made by legal moves.
\<close>

definition grown :: "('b, 'e) env \<Rightarrow> 'b \<Rightarrow> 'b heap \<Rightarrow> nat \<Rightarrow> bool" where
  "grown E state h rt \<longleftrightarrow>
     rt < top h \<and> parent (nodes h rt) = None \<and> bd (nodes h rt) = state \<and>
     distinct (child (nodes h rt)) \<and>
     (\<forall>c \<in> set (child (nodes h rt)).
        c < top h \<and> c \<noteq> rt \<and> parent (nodes h c) = Some rt \<and> child (nodes h c) = [] \<and>
        apply_action E (move (nodes h c)) state = Some (bd (nodes h c)))"

text \<open>The visits of the root are those of its children; the first child is visited first.\<close>

definition tallied :: "'b heap \<Rightarrow> nat \<Rightarrow> bool" where
  "tallied h rt \<longleftrightarrow>
     visit (nodes h rt) = sum_list (map (\<lambda>c. visit (nodes h c)) (child (nodes h rt))) \<and>
     (visit (nodes h rt) = 0 \<or> 1 \<le> visit (nodes h (hd (child (nodes h rt)))))"

text \<open>The shape and the statistics that the loop of \<^verbatim>\<open>Simulation\<close> keeps.\<close>

definition run_inv :: "('b, 'e) env \<Rightarrow> 'b \<Rightarrow> 'b heap \<Rightarrow> nat \<Rightarrow> bool" where
  "run_inv E state h rt \<longleftrightarrow>
     grown E state h rt \<and> counts_ok h \<and> tallied h rt \<and> child (nodes h rt) \<noteq> []"

text \<open>Two stores with the same nodes up to the statistics.\<close>

definition same_shape :: "'b heap \<Rightarrow> 'b heap \<Rightarrow> bool" where
  "same_shape h h' \<longleftrightarrow>
     top h' = top h \<and>
     (\<forall>p. bd (nodes h' p) = bd (nodes h p) \<and> move (nodes h' p) = move (nodes h p) \<and>
          parent (nodes h' p) = parent (nodes h p) \<and> child (nodes h' p) = child (nodes h p))"

text \<open>The store after backpropagation of the outcome \<open>r\<close> from the child \<open>c\<close> of \<open>rt\<close>.\<close>

definition stepped :: "'b heap \<Rightarrow> nat \<Rightarrow> nat \<Rightarrow> bool \<Rightarrow> 'b heap" where
  "stepped h rt c r =
     upd rt (bump (if r then 1 else 0)) (upd c (bump (if r then 1 else 0)) h)"

text \<open>The store that a call of \<^verbatim>\<open>take_action\<close> leaves, when it returns an action.\<close>

definition final_store :: "('b, 'e) env \<Rightarrow> 'e MCTS_player \<Rightarrow> 'b \<Rightarrow> 'b heap option" where
  "final_store E this state =
     (case take_action E this state of
        Some (Inr (a, this', h)) \<Rightarrow> Some h
      | _ \<Rightarrow> None)"

subsection \<open>An example board\<close>

text \<open>
  A row of \<open>n\<close> cells on which a stone may be placed on any empty cell; the engine is a
  counter and the shuffle reverses the vector on odd counts.
\<close>

definition row_env :: "nat \<Rightarrow> (piece_type list, nat) env" where
  "row_env n =
     \<lparr>cells = n,
      new_board = replicate n empty,
      apply_place = (\<lambda>i c s. if i < length s \<and> s ! i = empty \<and> c \<noteq> empty
                              then Some (s[i := c]) else None),
      default_engine = 0,
      seed_engine = (\<lambda>v. Some (length v)),
      shuffle = (\<lambda>xs e. (if even e then xs else rev xs, Suc e))\<rparr>"

definition empties :: "piece_type list \<Rightarrow> nat" where
  "empties s = length (filter (\<lambda>x. x = empty) s)"

definition row_player :: "nat \<Rightarrow> nat MCTS_player" where
  "row_player n =
     \<lparr>meta = agent ''name=me role=black search=MCTS'',
      space = map (\<lambda>i. place i black) [0 ..< n],
      who = black, engine = 0, sim_counts = 100\<rparr>"

text \<open>The same player configured with \<^verbatim>\<open>seed=7\<close>.\<close>

definition seeded_row_player :: "nat \<Rightarrow> nat MCTS_player" where
  "seeded_row_player n =
     \<lparr>meta = agent ''name=me role=black search=MCTS seed=7'',
      space = map (\<lambda>i. place i black) [0 ..< n],
      who = black, engine = 1, sim_counts = 100\<rparr>"

text \<open>
  A tree over the row of two cells: a root at address 0 with the leaves 1 and 2, visited
  \<open>v1\<close> and \<open>v2\<close> times and never won.
\<close>

definition example_tree :: "int \<Rightarrow> int \<Rightarrow> piece_type list heap" where
  "example_tree v1 v2 =
     \<lparr>nodes = (\<lambda>_. Node_init (row_env 2))
        (0 := \<lparr>visit = v1 + v2, win = 0, bd = [empty, empty], move = noaction,
                 parent = None, child = [1, 2]\<rparr>,
         1 := \<lparr>visit = v1, win = 0, bd = [black, empty], move = place 0 black,
                 parent = Some 0, child = []\<rparr>,
         2 := \<lparr>visit = v2, win = 0, bd = [empty, black], move = place 1 black,
                 parent = Some 0, child = []\<rparr>),
      top = 3\<rparr>"

section \<open>Properties\<close>

subsection \<open>Scores and the loop of selection\<close>

lemma uct_reachable:
  assumes "1 \<le> pv" "1 \<le> v"
  shows "uct pv w v = Fin (real_of_int w / real_of_int v + sqrt (2 * ln (real_of_int pv) / real_of_int v))"
proof -
  have "0 \<le> ln (real_of_int pv)" using assms by simp
  then have "0 \<le> 2 * ln (real_of_int pv) / real_of_int v" using assms by simp
  then show ?thesis using assms by (simp add: uct_def ratio_def flog_def not_less)
qed

lemma scan_unvisited:
  "\<exists>c \<in> set cs. visit (nodes h c) = 0 \<Longrightarrow>
   scan h r cs bn bv = Return (hd (filter (\<lambda>c. visit (nodes h c) = 0) cs))"
  by (induction cs arbitrary: bn bv) (auto simp: Let_def)

lemma scan_visited:
  assumes "\<forall>c \<in> set cs. 1 \<le> visit (nodes h c)" "1 \<le> visit (nodes h r)"
  shows "\<exists>b. scan h r cs bn (Fin x) = Done b \<and>
      ((b = bn \<and> (\<forall>c \<in> set cs. spec_score h r c \<le> x)) \<or>
       (\<exists>pre c post. cs = pre @ c # post \<and> b = Some c \<and> x < spec_score h r c \<and>
          (\<forall>d \<in> set pre. spec_score h r d < spec_score h r c) \<and>
          (\<forall>d \<in> set post. spec_score h r d \<le> spec_score h r c)))"
  using assms(1)
proof (induction cs arbitrary: bn x)
  case Nil
  then show ?case by simp
next
  case (Cons c cs)
  have vc: "1 \<le> visit (nodes h c)" and rest: "\<forall>c \<in> set cs. 1 \<le> visit (nodes h c)"
    using Cons.prems by auto
  have u: "uct (visit (nodes h r)) (win (nodes h c)) (visit (nodes h c)) = Fin (spec_score h r c)"
    using uct_reachable[OF assms(2) vc] by (simp add: spec_score_def)
  show ?case
  proof (cases "x < spec_score h r c")
    case True
    from Cons.IH[OF rest, of "Some c" "spec_score h r c"]
    obtain b where b: "scan h r cs (Some c) (Fin (spec_score h r c)) = Done b"
      and alt: "(b = Some c \<and> (\<forall>d \<in> set cs. spec_score h r d \<le> spec_score h r c)) \<or>
       (\<exists>pre c' post. cs = pre @ c' # post \<and> b = Some c' \<and> spec_score h r c < spec_score h r c' \<and>
          (\<forall>d \<in> set pre. spec_score h r d < spec_score h r c') \<and>
          (\<forall>d \<in> set post. spec_score h r d \<le> spec_score h r c'))" by blast
    have s: "scan h r (c # cs) bn (Fin x) = Done b"
      using vc True u b by (simp add: Let_def)
    from alt show ?thesis
    proof
      assume a: "b = Some c \<and> (\<forall>d \<in> set cs. spec_score h r d \<le> spec_score h r c)"
      have "c # cs = [] @ c # cs" by simp
      with a True s show ?thesis by (metis empty_iff list.set(1))
    next
      assume "\<exists>pre c' post. cs = pre @ c' # post \<and> b = Some c' \<and> spec_score h r c < spec_score h r c' \<and>
          (\<forall>d \<in> set pre. spec_score h r d < spec_score h r c') \<and>
          (\<forall>d \<in> set post. spec_score h r d \<le> spec_score h r c')"
      then obtain pre c' post where d: "cs = pre @ c' # post" "b = Some c'"
         "spec_score h r c < spec_score h r c'"
         "\<forall>d \<in> set pre. spec_score h r d < spec_score h r c'"
         "\<forall>d \<in> set post. spec_score h r d \<le> spec_score h r c'" by blast
      have "c # cs = (c # pre) @ c' # post" using d(1) by simp
      moreover have "\<forall>d \<in> set (c # pre). spec_score h r d < spec_score h r c'" using d(3,4) by simp
      moreover have "x < spec_score h r c'" using True d(3) by simp
      ultimately show ?thesis using s d(2,5) by blast
    qed
  next
    case False
    from Cons.IH[OF rest, of bn x]
    obtain b where b: "scan h r cs bn (Fin x) = Done b"
      and alt: "(b = bn \<and> (\<forall>d \<in> set cs. spec_score h r d \<le> x)) \<or>
       (\<exists>pre c' post. cs = pre @ c' # post \<and> b = Some c' \<and> x < spec_score h r c' \<and>
          (\<forall>d \<in> set pre. spec_score h r d < spec_score h r c') \<and>
          (\<forall>d \<in> set post. spec_score h r d \<le> spec_score h r c'))" by blast
    have s: "scan h r (c # cs) bn (Fin x) = Done b"
      using vc False u b by (simp add: Let_def)
    from alt show ?thesis
    proof
      assume "b = bn \<and> (\<forall>d \<in> set cs. spec_score h r d \<le> x)"
      then show ?thesis using s False by auto
    next
      assume "\<exists>pre c' post. cs = pre @ c' # post \<and> b = Some c' \<and> x < spec_score h r c' \<and>
          (\<forall>d \<in> set pre. spec_score h r d < spec_score h r c') \<and>
          (\<forall>d \<in> set post. spec_score h r d \<le> spec_score h r c')"
      then obtain pre c' post where d: "cs = pre @ c' # post" "b = Some c'"
         "x < spec_score h r c'"
         "\<forall>d \<in> set pre. spec_score h r d < spec_score h r c'"
         "\<forall>d \<in> set post. spec_score h r d \<le> spec_score h r c'" by blast
      have "c # cs = (c # pre) @ c' # post" using d(1) by simp
      moreover have "\<forall>d \<in> set (c # pre). spec_score h r d < spec_score h r c'" using d(3,4) False by auto
      ultimately show ?thesis using s d(2,3,5) by blast
    qed
  qed
qed

subsection \<open>Backpropagation along a chain of parents\<close>

lemma nodes_upd [simp]: "nodes (upd p f h) x = (if x = p then f (nodes h p) else nodes h x)"
  by (simp add: upd_def)

lemma top_upd [simp]: "top (upd p f h) = top h"
  by (simp add: upd_def)

lemma upd_bump: "upd c (\<lambda>n. n\<lparr>win := win n + w\<rparr>) (upd c (\<lambda>n. n\<lparr>visit := visit n + 1\<rparr>) h) = upd c (bump w) h"
  by (simp add: upd_def bump_def fun_eq_iff)

lemma chain_upd: "(\<And>n. parent (f n) = parent n) \<Longrightarrow> chain (upd c f h) p ps = chain h p ps"
  by (induction ps arbitrary: p) auto

lemma backPropagation_chain:
  "chain h p ps \<Longrightarrow> backPropagation h p w = Some (fold (\<lambda>c. upd c (bump w)) ps h)"
proof (induction ps arbitrary: h p)
  case Nil
  then show ?case by (subst backPropagation.simps) simp
next
  case (Cons c ps)
  then have p: "p = Some c" and ch: "chain h (parent (nodes h c)) ps" by auto
  have "chain (upd c (bump w) h) (parent (nodes h c)) ps"
    using ch by (simp add: chain_upd bump_def)
  from Cons.IH[OF this] show ?case
    unfolding p by (subst backPropagation.simps) (simp add: upd_bump)
qed

lemma chain_unique: "chain h p ps \<Longrightarrow> chain h p qs \<Longrightarrow> ps = qs"
proof (induction ps arbitrary: p qs)
  case Nil
  then show ?case by (cases qs) auto
next
  case (Cons c ps)
  then show ?case by (cases qs) auto
qed

lemma chain_suffix: "chain h p (xs @ c # ys) \<Longrightarrow> chain h (Some c) (c # ys)"
  by (induction xs arbitrary: p) auto

lemma chain_distinct: "chain h p ps \<Longrightarrow> distinct ps"
proof (induction ps arbitrary: p)
  case Nil
  then show ?case by simp
next
  case (Cons c ps)
  then have ch: "chain h (parent (nodes h c)) ps" and p: "p = Some c" by auto
  have "c \<notin> set ps"
  proof
    assume "c \<in> set ps"
    then obtain xs ys where ps: "ps = xs @ c # ys" by (auto simp: in_set_conv_decomp)
    have "chain h (Some c) (c # ys)" using ch chain_suffix unfolding ps by fastforce
    moreover have "chain h (Some c) (c # ps)" using Cons.prems p by simp
    ultimately have "c # ys = c # ps" by (rule chain_unique)
    then show False using ps by simp
  qed
  then show ?case using Cons.IH[OF ch] by simp
qed

lemma nodes_fold_upd:
  "distinct ps \<Longrightarrow> nodes (fold (\<lambda>c. upd c f) ps h) x = (if x \<in> set ps then f (nodes h x) else nodes h x)"
  by (induction ps arbitrary: h) auto

lemma top_fold_upd: "top (fold (\<lambda>c. upd c f) ps h) = top h"
  by (induction ps arbitrary: h) auto

lemma chain_last: "chain h p ps \<Longrightarrow> ps \<noteq> [] \<Longrightarrow> parent (nodes h (last ps)) = None"
  by (induction ps arbitrary: p) (auto split: if_splits)

subsection \<open>Rollouts\<close>

lemma rollout_unfold_my:
  "random_take_action E p s = (mv, p') \<Longrightarrow>
   rollout E p q True s =
     (case apply_action E mv s of None \<Rightarrow> Some False | Some s' \<Rightarrow> rollout E p' q False s')"
  by (subst rollout.simps) (simp split: option.split)

lemma rollout_unfold_opp:
  "random_take_action E q s = (mv, q') \<Longrightarrow>
   rollout E p q False s =
     (case apply_action E mv s of None \<Rightarrow> Some True | Some s' \<Rightarrow> rollout E p q' True s')"
  by (subst rollout.simps) (simp split: option.split)

lemma apply_action_decreasing:
  "decreasing E m \<Longrightarrow> apply_action E mv s = Some s' \<Longrightarrow> m s' < m s"
  by (auto simp: decreasing_def apply_action_def split: action.splits)

lemma rollout_step_my:
  assumes "\<And>s' p' q' t'. m s' < m s \<Longrightarrow> \<exists>r. rollout E p' q' t' s' = Some r"
    and "decreasing E m"
  shows "\<exists>r. rollout E p q True s = Some r"
proof -
  obtain mv p' where ta: "random_take_action E p s = (mv, p')"
    by (cases "random_take_action E p s")
  have u: "rollout E p q True s =
     (case apply_action E mv s of None \<Rightarrow> Some False | Some s' \<Rightarrow> rollout E p' q False s')"
    using ta by (rule rollout_unfold_my)
  show ?thesis
  proof (cases "apply_action E mv s")
    case None
    have "rollout E p q True s = Some False" unfolding u None by simp
    then show ?thesis by (rule exI)
  next
    case (Some s')
    have "m s' < m s" using assms(2) Some by (rule apply_action_decreasing)
    then obtain r where "rollout E p' q False s' = Some r" using assms(1) by blast
    then have "rollout E p q True s = Some r" unfolding u Some by simp
    then show ?thesis by (rule exI)
  qed
qed

lemma rollout_step_opp:
  assumes "\<And>s' p' q' t'. m s' < m s \<Longrightarrow> \<exists>r. rollout E p' q' t' s' = Some r"
    and "decreasing E m"
  shows "\<exists>r. rollout E p q False s = Some r"
proof -
  obtain mv q' where ta: "random_take_action E q s = (mv, q')"
    by (cases "random_take_action E q s")
  have u: "rollout E p q False s =
     (case apply_action E mv s of None \<Rightarrow> Some True | Some s' \<Rightarrow> rollout E p q' True s')"
    using ta by (rule rollout_unfold_opp)
  show ?thesis
  proof (cases "apply_action E mv s")
    case None
    have "rollout E p q False s = Some True" unfolding u None by simp
    then show ?thesis by (rule exI)
  next
    case (Some s')
    have "m s' < m s" using assms(2) Some by (rule apply_action_decreasing)
    then obtain r where "rollout E p q' True s' = Some r" using assms(1) by blast
    then have "rollout E p q False s = Some r" unfolding u Some by simp
    then show ?thesis by (rule exI)
  qed
qed

lemma rollout_terminates:
  assumes "decreasing E m"
  shows "\<exists>r. rollout E p q t s = Some r"
proof (induction "m s" arbitrary: p q t s rule: less_induct)
  case less
  show ?case
  proof (induct t)
    case True
    show ?case by (rule rollout_step_my[of m s E, OF _ assms]) (rule less)
  next
    case False
    show ?case by (rule rollout_step_opp[of m s E, OF _ assms]) (rule less)
  qed
qed


lemma first_legal_noaction:
  "first_legal E sp s = noaction \<longleftrightarrow> (\<forall>mv \<in> set sp. apply_action E mv s = None)"
  by (induction sp) (auto simp: apply_action_def split: option.splits action.splits)

lemma first_legal_place:
  "first_legal E sp s = place i c \<Longrightarrow> place i c \<in> set sp \<and> apply_place E i c s \<noteq> None"
  by (induction sp) (auto simp: apply_action_def split: option.splits action.splits)

lemma shuffle_set: "shuffle_ok E \<Longrightarrow> shuffle E xs e = (ys, e') \<Longrightarrow> set ys = set xs"
proof -
  assume a: "shuffle_ok E" "shuffle E xs e = (ys, e')"
  then have "mset (fst (shuffle E xs e)) = mset xs" unfolding shuffle_ok_def by blast
  then have "mset ys = mset xs" using a(2) by simp
  then show ?thesis by (rule mset_eq_setD)
qed

lemma take_action_player_ok:
  assumes "shuffle_ok E" "player_ok E w p" "random_take_action E p s = (mv, p')"
  shows "player_ok E w p'"
proof -
  obtain sp e where sh: "shuffle E (space p) (engine p) = (sp, e)" by (cases "shuffle E (space p) (engine p)")
  then have "p' = p\<lparr>space := sp, engine := e\<rparr>" using assms(3) by (simp add: random_take_action_def)
  moreover have "set sp = set (space p)" using shuffle_set[OF assms(1) sh] .
  ultimately show ?thesis using assms(2) by (simp add: player_ok_def)
qed

lemma take_action_stuck:
  assumes "shuffle_ok E" "player_ok E w p" "random_take_action E p s = (mv, p')"
    "apply_action E mv s = None"
  shows "no_move E w s"
proof -
  obtain sp e where sh: "shuffle E (space p) (engine p) = (sp, e)" by (cases "shuffle E (space p) (engine p)")
  then have mv: "mv = first_legal E sp s" using assms(3) by (simp add: random_take_action_def)
  have sp: "set sp = (\<lambda>i. place i w) ` {..< cells E}"
    using shuffle_set[OF assms(1) sh] assms(2) by (simp add: player_ok_def)
  have "mv = noaction"
  proof (cases mv)
    case noaction then show ?thesis .
  next
    case (place i c)
    then show ?thesis using first_legal_place[of E sp s i c] mv assms(4) by (simp add: apply_action_def)
  qed
  then have "\<forall>a \<in> set sp. apply_action E a s = None" using mv first_legal_noaction[of E sp s] by simp
  then show ?thesis unfolding sp no_move_def by (auto simp: apply_action_def)
qed

lemma take_action_moves:
  assumes "shuffle_ok E" "player_ok E w p" "random_take_action E p s = (mv, p')"
    "apply_action E mv s = Some s'"
  shows "\<exists>i < cells E. mv = place i w \<and> apply_place E i w s = Some s'"
proof -
  obtain sp e where sh: "shuffle E (space p) (engine p) = (sp, e)" by (cases "shuffle E (space p) (engine p)")
  then have mv: "mv = first_legal E sp s" using assms(3) by (simp add: random_take_action_def)
  have sp: "set sp = (\<lambda>i. place i w) ` {..< cells E}"
    using shuffle_set[OF assms(1) sh] assms(2) by (simp add: player_ok_def)
  obtain i c where ic: "mv = place i c" using assms(4) by (cases mv) (auto simp: apply_action_def)
  then have "place i c \<in> set sp" using first_legal_place[of E sp s i c] mv by simp
  then have "i < cells E" "c = w" using sp by auto
  then show ?thesis using ic assms(4) by (auto simp: apply_action_def)
qed


lemma rollout_plays_aux:
  "rollout E p q t s = Some r \<Longrightarrow>
   shuffle_ok E \<longrightarrow> player_ok E me p \<longrightarrow> player_ok E opp q \<longrightarrow>
    (\<exists>is s'. (\<forall>i \<in> set is. i < cells E) \<and>
       plays E (if t then me else opp) (if t then opp else me) is s = Some s' \<and>
       no_move E (if t = even (length is) then me else opp) s' \<and>
       r = (t \<noteq> even (length is)))"
proof (induction rule: rollout.raw_induct[rotated 1, consumes 1])
  case (1 rollout' E p q t s r)
  note IH = 1(1) and eq = 1(2)
  show ?case
  proof (intro impI)
    assume sh: "shuffle_ok E" and okp: "player_ok E me p" and okq: "player_ok E opp q"
    show "\<exists>is s'. (\<forall>i \<in> set is. i < cells E) \<and>
       plays E (if t then me else opp) (if t then opp else me) is s = Some s' \<and>
       no_move E (if t = even (length is) then me else opp) s' \<and>
       r = (t \<noteq> even (length is))"
    proof (cases t)
      case True
      obtain mv p' where ta: "random_take_action E p s = (mv, p')"
        by (cases "random_take_action E p s")
      show ?thesis
      proof (cases "apply_action E mv s")
        case None
        then have r: "r = False" using eq True ta by simp
        have nm: "no_move E me s" using take_action_stuck[OF sh okp ta None] .
        show ?thesis
          by (rule exI[of _ "[]"], rule exI[of _ s]) (use True r nm in simp)
      next
        case (Some s1)
        then have rec: "rollout' E p' q (\<not> t) s1 = Some r" using eq True ta by simp
        have okp': "player_ok E me p'" using take_action_player_ok[OF sh okp ta] .
        obtain i where i: "i < cells E" "apply_place E i me s = Some s1"
          using take_action_moves[OF sh okp ta Some] by blast
        from IH[OF rec, rule_format, OF sh okp' okq]
        obtain js s' where js: "\<forall>j \<in> set js. j < cells E"
          "plays E (if \<not> t then me else opp) (if \<not> t then opp else me) js s1 = Some s'"
          "no_move E (if (\<not> t) = even (length js) then me else opp) s'"
          "r = ((\<not> t) \<noteq> even (length js))" by (elim exE conjE)
        show ?thesis
          by (rule exI[of _ "i # js"], rule exI[of _ s']) (use True i js in simp)
      qed
    next
      case False
      obtain mv q' where ta: "random_take_action E q s = (mv, q')"
        by (cases "random_take_action E q s")
      show ?thesis
      proof (cases "apply_action E mv s")
        case None
        then have r: "r = True" using eq False ta by simp
        have nm: "no_move E opp s" using take_action_stuck[OF sh okq ta None] .
        show ?thesis
          by (rule exI[of _ "[]"], rule exI[of _ s]) (use False r nm in simp)
      next
        case (Some s1)
        then have rec: "rollout' E p q' (\<not> t) s1 = Some r" using eq False ta by simp
        have okq': "player_ok E opp q'" using take_action_player_ok[OF sh okq ta] .
        obtain i where i: "i < cells E" "apply_place E i opp s = Some s1"
          using take_action_moves[OF sh okq ta Some] by blast
        from IH[OF rec, rule_format, OF sh okp okq']
        obtain js s' where js: "\<forall>j \<in> set js. j < cells E"
          "plays E (if \<not> t then me else opp) (if \<not> t then opp else me) js s1 = Some s'"
          "no_move E (if (\<not> t) = even (length js) then me else opp) s'"
          "r = ((\<not> t) \<noteq> even (length js))" by (elim exE conjE)
        show ?thesis
          by (rule exI[of _ "i # js"], rule exI[of _ s']) (use False i js in simp)
      qed
    qed
  qed
qed

subsection \<open>Selection\<close>

lemma selection_leaf: "child (nodes h r) = [] \<Longrightarrow> selection h (Some r) = Some (Inr r)"
  by (subst selection.simps) simp

lemma selection_return:
  "child (nodes h r) \<noteq> [] \<Longrightarrow> scan h r (child (nodes h r)) None (Fin (- 99999)) = Return c \<Longrightarrow>
   selection h (Some r) = Some (Inr c)"
  by (subst selection.simps) simp

lemma selection_done:
  "child (nodes h r) \<noteq> [] \<Longrightarrow> scan h r (child (nodes h r)) None (Fin (- 99999)) = Done b \<Longrightarrow>
   selection h (Some r) = selection h b"
  by (subst selection.simps) simp

lemma spec_score_nonneg:
  "1 \<le> visit (nodes h r) \<Longrightarrow> 1 \<le> visit (nodes h c) \<Longrightarrow> 0 \<le> win (nodes h c) \<Longrightarrow>
   0 \<le> spec_score h r c"
  by (simp add: spec_score_def)

lemma selection_visited:
  assumes ne: "child (nodes h r) \<noteq> []" and rv: "1 \<le> visit (nodes h r)"
    and cv: "\<forall>c \<in> set (child (nodes h r)). 1 \<le> visit (nodes h c) \<and> 0 \<le> win (nodes h c)"
  shows "\<exists>pre b post. child (nodes h r) = pre @ b # post \<and>
          (\<forall>d \<in> set pre. spec_score h r d < spec_score h r b) \<and>
          (\<forall>d \<in> set post. spec_score h r d \<le> spec_score h r b) \<and>
          selection h (Some r) = selection h (Some b)"
proof -
  let ?cs = "child (nodes h r)"
  have v: "\<forall>c \<in> set ?cs. 1 \<le> visit (nodes h c)" using cv by blast
  from scan_visited[OF v rv, of None "- 99999"]
  obtain b where b: "scan h r ?cs None (Fin (- 99999)) = Done b"
    and alt: "(b = None \<and> (\<forall>c \<in> set ?cs. spec_score h r c \<le> - 99999)) \<or>
       (\<exists>pre c post. ?cs = pre @ c # post \<and> b = Some c \<and> - 99999 < spec_score h r c \<and>
          (\<forall>d \<in> set pre. spec_score h r d < spec_score h r c) \<and>
          (\<forall>d \<in> set post. spec_score h r d \<le> spec_score h r c))" by blast
  obtain c0 where c0: "c0 \<in> set ?cs" using ne by (cases ?cs) auto
  have "0 \<le> spec_score h r c0" using spec_score_nonneg[OF rv] cv c0 by blast
  then have "\<not> (\<forall>c \<in> set ?cs. spec_score h r c \<le> - 99999)" using c0 by force
  with alt obtain pre c post where d: "?cs = pre @ c # post" "b = Some c"
          "\<forall>d \<in> set pre. spec_score h r d < spec_score h r c"
          "\<forall>d \<in> set post. spec_score h r d \<le> spec_score h r c" by blast
  have "selection h (Some r) = selection h (Some c)"
    using selection_done[OF ne b] d(2) by simp
  with d show ?thesis by blast
qed

subsection \<open>The players of a simulation\<close>

lemma agent_black_seed: "agent ''name=black  role=black'' ''seed'' = None"
  by (simp add: agent_def isspace_def key_of_def value_of_def)

lemma agent_white_seed: "agent ''name=white  role=white'' ''seed'' = None"
  by (simp add: agent_def isspace_def key_of_def value_of_def)

lemma rp_black:
  "random_player_init E ''name=black  role=black'' =
     Inr \<lparr>meta = agent ''name=black  role=black'', space = map (\<lambda>i. place i black) [0 ..< cells E],
          who = black, engine = default_engine E\<rparr>"
  by (simp add: random_player_init_def agent_def isspace_def key_of_def value_of_def property_def Let_def)

lemma rp_white:
  "random_player_init E ''name=white  role=white'' =
     Inr \<lparr>meta = agent ''name=white  role=white'', space = map (\<lambda>i. place i white) [0 ..< cells E],
          who = white, engine = default_engine E\<rparr>"
  by (simp add: random_player_init_def agent_def isspace_def key_of_def value_of_def property_def Let_def)

lemma sim_players_black:
  "sim_players E black =
     Inr (\<lparr>meta = agent ''name=black  role=black'', space = map (\<lambda>i. place i black) [0 ..< cells E],
            who = black, engine = default_engine E\<rparr>,
          \<lparr>meta = agent ''name=white  role=white'', space = map (\<lambda>i. place i white) [0 ..< cells E],
            who = white, engine = default_engine E\<rparr>)"
  by (simp add: sim_players_def rp_black rp_white)

lemma sim_players_white:
  "sim_players E white =
     Inr (\<lparr>meta = agent ''name=white  role=white'', space = map (\<lambda>i. place i white) [0 ..< cells E],
            who = white, engine = default_engine E\<rparr>,
          \<lparr>meta = agent ''name=black  role=black'', space = map (\<lambda>i. place i black) [0 ..< cells E],
            who = black, engine = default_engine E\<rparr>)"
  by (simp add: sim_players_def rp_black rp_white)

lemma sim_players_ok:
  assumes "(me = black \<and> opp = white) \<or> (me = white \<and> opp = black)"
  shows "\<exists>p q. sim_players E me = Inr (p, q) \<and> player_ok E me p \<and> player_ok E opp q \<and>
           engine p = default_engine E \<and> engine q = default_engine E \<and>
           meta p ''seed'' = None \<and> meta q ''seed'' = None"
  using assms
  by (auto simp: sim_players_black sim_players_white player_ok_def atLeast0LessThan
        agent_black_seed agent_white_seed)

lemma oneSim_runs:
  assumes "sim_players E (who this) = Inr (p, q)"
  shows "oneSim E this h node = map_option Inr (rollout E p q False (bd (nodes h node)))"
  using assms by (simp add: oneSim_def)

subsection \<open>The example board\<close>

lemma shuffle_ok_row: "shuffle_ok (row_env n)"
  by (simp add: shuffle_ok_def row_env_def)

lemma empties_update:
  "i < length s \<Longrightarrow> s ! i = empty \<Longrightarrow> c \<noteq> empty \<Longrightarrow> empties (s[i := c]) < empties s"
proof (induction s arbitrary: i)
  case Nil
  then show ?case by simp
next
  case (Cons x s)
  show ?case
  proof (cases i)
    case 0
    then show ?thesis using Cons.prems by (simp add: empties_def)
  next
    case (Suc j)
    then have "empties (s[j := c]) < empties s" using Cons by simp
    then show ?thesis using Suc by (simp add: empties_def)
  qed
qed

lemma decreasing_row: "decreasing (row_env n) empties"
  by (auto simp: decreasing_def row_env_def empties_update split: if_splits)

lemma row_player_ok: "player_ok (row_env n) black (row_player n)"
  by (simp add: player_ok_def row_player_def row_env_def atLeast0LessThan)

lemma row_player_init:
  "MCTS_player_init (row_env n) ''name=me role=black search=MCTS'' = Inr (row_player n)"
  by (simp add: MCTS_player_init_def random_player_init_def row_player_def row_env_def agent_def
      isspace_def key_of_def value_of_def property_def Let_def random_player.extend_def)

lemma seeded_row_player_init:
  "MCTS_player_init (row_env n) ''name=me role=black search=MCTS seed=7'' =
     Inr (seeded_row_player n)"
  by (simp add: MCTS_player_init_def random_player_init_def seeded_row_player_def row_env_def
      agent_def isspace_def key_of_def value_of_def property_def Let_def random_player.extend_def)

subsection \<open>Statistics stay within bounds\<close>

lemma counts_ok_empty: "counts_ok (empty_heap E)"
  by (simp add: counts_ok_def empty_heap_def Node_init_def)

lemma counts_ok_new_Node: "counts_ok h \<Longrightarrow> counts_ok (snd (new_Node E h))"
  by (simp add: counts_ok_def new_Node_def Node_init_def)

lemma counts_ok_upd:
  "counts_ok h \<Longrightarrow> (\<And>n. visit (f n) = visit n \<and> win (f n) = win n) \<Longrightarrow> counts_ok (upd p f h)"
  by (simp add: counts_ok_def)

lemma counts_ok_bump:
  "counts_ok h \<Longrightarrow> 0 \<le> w \<Longrightarrow> w \<le> 1 \<Longrightarrow> counts_ok (upd p (bump w) h)"
proof -
  assume a: "counts_ok h" "0 \<le> w" "w \<le> 1"
  have "0 \<le> win (nodes h p)" "win (nodes h p) \<le> visit (nodes h p)"
    using a(1) by (simp_all add: counts_ok_def)
  then have "0 \<le> win (nodes h p) + w" "win (nodes h p) + w \<le> visit (nodes h p) + 1"
    using a(2,3) by simp_all
  then show ?thesis using a(1) by (simp add: counts_ok_def bump_def)
qed

lemma counts_ok_add_children:
  "counts_ok h \<Longrightarrow> counts_ok (add_children E rt ms h)"
proof (induction ms arbitrary: h)
  case Nil
  then show ?case by simp
next
  case (Cons mv ms)
  show ?case
  proof (cases "apply_action E mv (bd (nodes h rt))")
    case None
    then show ?thesis using Cons by simp
  next
    case (Some after)
    have "counts_ok (upd rt (\<lambda>n. n\<lparr>child := child n @ [top h]\<rparr>)
            (upd (top h) (\<lambda>n. n\<lparr>parent := Some rt, move := mv, bd := after\<rparr>)
              (snd (new_Node E h))))"
      using Cons.prems by (intro counts_ok_upd counts_ok_new_Node) simp_all
    then show ?thesis using Some Cons.IH by (simp add: new_Node_def)
  qed
qed

lemma counts_ok_backPropagation:
  "backPropagation h p w = Some h' \<Longrightarrow> counts_ok h \<longrightarrow> 0 \<le> w \<longrightarrow> w \<le> 1 \<longrightarrow> counts_ok h'"
proof (induction rule: backPropagation.raw_induct[rotated 1, consumes 1])
  case (1 bp h p w h')
  note IH = 1(1) and eq = 1(2)
  show ?case
  proof (cases p)
    case None
    then show ?thesis using eq by simp
  next
    case (Some c)
    show ?thesis
    proof (intro impI)
      assume a: "counts_ok h" "0 \<le> w" "w \<le> 1"
      have rec: "bp (upd c (bump w) h) (parent (nodes h c)) w = Some h'"
        using eq Some by (simp add: upd_bump)
      have "counts_ok (upd c (bump w) h)" using a by (rule counts_ok_bump)
      then show "counts_ok h'" using IH[OF rec] a by simp
    qed
  qed
qed

subsection \<open>Expansion\<close>

lemma grown_step:
  assumes g: "grown E state h rt" and legal: "apply_action E mv state = Some after"
  defines "h3 \<equiv> upd rt (\<lambda>n. n\<lparr>child := child n @ [top h]\<rparr>)
            (upd (top h) (\<lambda>n. n\<lparr>parent := Some rt, move := mv, bd := after\<rparr>)
              (snd (new_Node E h)))"
  shows "grown E state h3 rt"
    and "top h3 = Suc (top h)"
    and "child (nodes h3 rt) = child (nodes h rt) @ [top h]"
    and "move (nodes h3 (top h)) = mv"
    and "\<forall>c. c \<noteq> top h \<longrightarrow> move (nodes h3 c) = move (nodes h c)"
    and "\<forall>c. visit (nodes h3 c) = (if c = top h then 0 else visit (nodes h c)) \<and>
             win (nodes h3 c) = (if c = top h then 0 else win (nodes h c))"
proof -
  have rt: "rt < top h" using g by (simp add: grown_def)
  have old: "\<forall>c \<in> set (child (nodes h rt)). c < top h \<and> c \<noteq> rt"
    using g by (simp add: grown_def)
  show "top h3 = Suc (top h)" by (simp add: h3_def new_Node_def)
  show "child (nodes h3 rt) = child (nodes h rt) @ [top h]"
    using rt by (simp add: h3_def new_Node_def)
  show "move (nodes h3 (top h)) = mv" using rt by (simp add: h3_def new_Node_def)
  show "\<forall>c. c \<noteq> top h \<longrightarrow> move (nodes h3 c) = move (nodes h c)"
    by (simp add: h3_def new_Node_def)
  show "\<forall>c. visit (nodes h3 c) = (if c = top h then 0 else visit (nodes h c)) \<and>
             win (nodes h3 c) = (if c = top h then 0 else win (nodes h c))"
    using rt by (simp add: h3_def new_Node_def Node_init_def)
  show "grown E state h3 rt"
    unfolding grown_def
  proof (intro conjI ballI)
    show "rt < top h3" using rt by (simp add: h3_def new_Node_def)
    show "parent (nodes h3 rt) = None" using rt g by (simp add: h3_def new_Node_def grown_def)
    show "bd (nodes h3 rt) = state" using rt g by (simp add: h3_def new_Node_def grown_def)
    show "distinct (child (nodes h3 rt))"
      using rt g old by (auto simp: h3_def new_Node_def grown_def)
  next
    fix c assume "c \<in> set (child (nodes h3 rt))"
    then have c: "c \<in> set (child (nodes h rt)) \<or> c = top h"
      using rt by (auto simp: h3_def new_Node_def)
    show "c < top h3" using c old by (auto simp: h3_def new_Node_def)
    show "c \<noteq> rt" using c old rt by auto
    show "parent (nodes h3 c) = Some rt"
      using c old rt g by (auto simp: h3_def new_Node_def grown_def)
    show "child (nodes h3 c) = []"
      using c old rt g by (auto simp: h3_def new_Node_def grown_def Node_init_def)
    show "apply_action E (move (nodes h3 c)) state = Some (bd (nodes h3 c))"
      using c old rt g legal by (auto simp: h3_def new_Node_def grown_def)
  qed
qed

lemma add_children_unfold_legal:
  "apply_action E mv (bd (nodes h rt)) = Some after \<Longrightarrow>
   add_children E rt (mv # ms) h =
     add_children E rt ms
       (upd rt (\<lambda>n. n\<lparr>child := child n @ [top h]\<rparr>)
         (upd (top h) (\<lambda>n. n\<lparr>parent := Some rt, move := mv, bd := after\<rparr>)
           (snd (new_Node E h))))"
  by (simp add: new_Node_def)

lemma add_children_grown:
  assumes "grown E state h rt"
  shows "grown E state (add_children E rt ms h) rt \<and>
     top (add_children E rt ms h) =
       top h + length (filter (\<lambda>mv. apply_action E mv state \<noteq> None) ms) \<and>
     child (nodes (add_children E rt ms h) rt) =
       child (nodes h rt) @ [top h ..< top (add_children E rt ms h)] \<and>
     map (\<lambda>c. move (nodes (add_children E rt ms h) c)) (child (nodes (add_children E rt ms h) rt)) =
       map (\<lambda>c. move (nodes h c)) (child (nodes h rt)) @
         filter (\<lambda>mv. apply_action E mv state \<noteq> None) ms \<and>
     ((\<forall>c. visit (nodes h c) = 0 \<and> win (nodes h c) = 0) \<longrightarrow>
      (\<forall>c. visit (nodes (add_children E rt ms h) c) = 0 \<and>
           win (nodes (add_children E rt ms h) c) = 0))"
  using assms
proof (induction ms arbitrary: h)
  case Nil
  then show ?case by simp
next
  case (Cons mv ms)
  have st: "bd (nodes h rt) = state" using Cons.prems by (simp add: grown_def)
  show ?case
  proof (cases "apply_action E mv state")
    case None
    have unf: "add_children E rt (mv # ms) h = add_children E rt ms h"
      using None st by simp
    have f: "filter (\<lambda>mv. apply_action E mv state \<noteq> None) (mv # ms) =
        filter (\<lambda>mv. apply_action E mv state \<noteq> None) ms"
      using None by simp
    show ?thesis unfolding unf f using Cons.IH[OF Cons.prems] .
  next
    case (Some after)
    define h3 where "h3 = upd rt (\<lambda>n. n\<lparr>child := child n @ [top h]\<rparr>)
            (upd (top h) (\<lambda>n. n\<lparr>parent := Some rt, move := mv, bd := after\<rparr>)
              (snd (new_Node E h)))"
    note gs = grown_step[OF Cons.prems Some, folded h3_def]
    have unf: "add_children E rt (mv # ms) h = add_children E rt ms h3"
      using add_children_unfold_legal[of E mv h rt after ms] Some st by (simp add: h3_def)
    let ?h' = "add_children E rt ms h3"
    note IH = Cons.IH[OF gs(1)]
    have old: "\<forall>c \<in> set (child (nodes h rt)). c \<noteq> top h"
      using Cons.prems by (auto simp: grown_def)
    have f: "filter (\<lambda>mv. apply_action E mv state \<noteq> None) (mv # ms) =
        mv # filter (\<lambda>mv. apply_action E mv state \<noteq> None) ms"
      using Some by simp
    have tp0: "top ?h' = Suc (top h) + length (filter (\<lambda>mv. apply_action E mv state \<noteq> None) ms)"
      using IH gs(2) by simp
    have tp: "top ?h' = top h + length (filter (\<lambda>mv. apply_action E mv state \<noteq> None) (mv # ms))"
      unfolding f using tp0 by simp
    have "top h < top ?h'" using tp0 by simp
    then have u: "[top h ..< top ?h'] = top h # [Suc (top h) ..< top ?h']"
      by (rule upt_conv_Cons)
    have "child (nodes ?h' rt) = child (nodes h3 rt) @ [top h3 ..< top ?h']"
      using IH by blast
    then have ch: "child (nodes ?h' rt) = child (nodes h rt) @ [top h ..< top ?h']"
      unfolding u gs(2) gs(3) by simp
    have m0: "map (\<lambda>c. move (nodes h3 c)) (child (nodes h rt)) =
        map (\<lambda>c. move (nodes h c)) (child (nodes h rt))"
      using old gs(5) by (intro map_cong) auto
    have "map (\<lambda>c. move (nodes ?h' c)) (child (nodes ?h' rt)) =
       map (\<lambda>c. move (nodes h3 c)) (child (nodes h3 rt)) @
         filter (\<lambda>mv. apply_action E mv state \<noteq> None) ms"
      using IH by blast
    also have "map (\<lambda>c. move (nodes h3 c)) (child (nodes h3 rt)) =
       map (\<lambda>c. move (nodes h c)) (child (nodes h rt)) @ [mv]"
      unfolding gs(3) using m0 gs(4) by simp
    finally have mv: "map (\<lambda>c. move (nodes ?h' c)) (child (nodes ?h' rt)) =
       map (\<lambda>c. move (nodes h c)) (child (nodes h rt)) @
         filter (\<lambda>mv. apply_action E mv state \<noteq> None) (mv # ms)"
      unfolding f by simp
    have z: "(\<forall>c. visit (nodes h c) = 0 \<and> win (nodes h c) = 0) \<longrightarrow>
      (\<forall>c. visit (nodes ?h' c) = 0 \<and> win (nodes ?h' c) = 0)"
    proof
      assume "\<forall>c. visit (nodes h c) = 0 \<and> win (nodes h c) = 0"
      then have "\<forall>c. visit (nodes h3 c) = 0 \<and> win (nodes h3 c) = 0" using gs(6) by simp
      then show "\<forall>c. visit (nodes ?h' c) = 0 \<and> win (nodes ?h' c) = 0" using IH by blast
    qed
    have g': "grown E state ?h' rt" using IH by blast
    show ?thesis unfolding unf using g' tp ch mv z by (intro conjI)
  qed
qed

lemma build_root_props:
  assumes sh: "shuffle E (space this) (engine this) = (sp, e)"
  shows "\<exists>h2. build_root E this state = (0, this\<lparr>space := sp, engine := e\<rparr>, h2) \<and>
      grown E state h2 0 \<and> counts_ok h2 \<and>
      (\<forall>c. visit (nodes h2 c) = 0 \<and> win (nodes h2 c) = 0) \<and>
      map (\<lambda>c. move (nodes h2 c)) (child (nodes h2 0)) =
        filter (\<lambda>mv. apply_action E mv state \<noteq> None) sp \<and>
      child (nodes h2 0) = [1 ..< top h2] \<and>
      top h2 = Suc (length (filter (\<lambda>mv. apply_action E mv state \<noteq> None) sp))"
proof -
  define h1 where "h1 = upd 0 (\<lambda>n. n\<lparr>bd := state\<rparr>) (snd (new_Node E (empty_heap E)))"
  have br: "build_root E this state = (0, this\<lparr>space := sp, engine := e\<rparr>, add_children E 0 sp h1)"
    using sh by (simp add: build_root_def new_Node_def empty_heap_def expansion_def h1_def)
  have t1: "top h1 = 1" by (simp add: h1_def new_Node_def empty_heap_def)
  have c1: "child (nodes h1 0) = []" by (simp add: h1_def new_Node_def empty_heap_def Node_init_def)
  have g1: "grown E state h1 0"
    by (simp add: grown_def h1_def new_Node_def empty_heap_def Node_init_def)
  have z1: "\<forall>c. visit (nodes h1 c) = 0 \<and> win (nodes h1 c) = 0"
    by (simp add: h1_def new_Node_def empty_heap_def Node_init_def)
  have k1: "counts_ok h1"
    unfolding h1_def by (intro counts_ok_upd counts_ok_new_Node counts_ok_empty) simp
  note ac = add_children_grown[OF g1, of sp]
  let ?h2 = "add_children E 0 sp h1"
  have a: "grown E state ?h2 0" using ac by (elim conjE)
  have ac_top: "top ?h2 = top h1 + length (filter (\<lambda>mv. apply_action E mv state \<noteq> None) sp)"
    using ac by (elim conjE)
  have ac_child: "child (nodes ?h2 0) = child (nodes h1 0) @ [top h1 ..< top ?h2]"
    using ac by (elim conjE)
  have ac_move: "map (\<lambda>c. move (nodes ?h2 c)) (child (nodes ?h2 0)) =
       map (\<lambda>c. move (nodes h1 c)) (child (nodes h1 0)) @
         filter (\<lambda>mv. apply_action E mv state \<noteq> None) sp"
    using ac by (elim conjE)
  have ac_zero: "(\<forall>c. visit (nodes h1 c) = 0 \<and> win (nodes h1 c) = 0) \<longrightarrow>
      (\<forall>c. visit (nodes ?h2 c) = 0 \<and> win (nodes ?h2 c) = 0)"
    using ac by (elim conjE)
  have b: "counts_ok ?h2" using k1 by (rule counts_ok_add_children)
  have c: "\<forall>c. visit (nodes ?h2 c) = 0 \<and> win (nodes ?h2 c) = 0" using ac_zero z1 by blast
  have d: "map (\<lambda>c. move (nodes ?h2 c)) (child (nodes ?h2 0)) =
        filter (\<lambda>mv. apply_action E mv state \<noteq> None) sp"
    unfolding ac_move c1 by simp
  have e: "child (nodes ?h2 0) = [1 ..< top ?h2]" unfolding ac_child c1 t1 by simp
  have f: "top ?h2 = Suc (length (filter (\<lambda>mv. apply_action E mv state \<noteq> None) sp))"
    unfolding ac_top t1 by simp
  show ?thesis using br a b c d e f by blast
qed

subsection \<open>One iteration on a root with leaves\<close>

lemma member_le_sum_list_int:
  fixes f :: "'a \<Rightarrow> int"
  assumes "\<forall>x \<in> set xs. 0 \<le> f x" "x \<in> set xs"
  shows "f x \<le> sum_list (map f xs)"
  using assms
proof (induction xs)
  case Nil
  then show ?case by simp
next
  case (Cons y ys)
  have nn: "0 \<le> sum_list (map f ys)" using Cons.prems(1) by (auto intro!: sum_list_nonneg)
  show ?case
  proof (cases "x = y")
    case True
    then show ?thesis using nn by simp
  next
    case False
    then have "f x \<le> sum_list (map f ys)" using Cons by simp
    moreover have "0 \<le> f y" using Cons.prems(1) by simp
    ultimately show ?thesis by simp
  qed
qed

lemma sum_list_bump_one:
  fixes f :: "nat \<Rightarrow> int"
  assumes "distinct xs" "c \<in> set xs"
  shows "sum_list (map (\<lambda>x. if x = c then f x + 1 else f x) xs) = sum_list (map f xs) + 1"
  using assms
proof (induction xs)
  case Nil
  then show ?case by simp
next
  case (Cons y ys)
  show ?case
  proof (cases "y = c")
    case True
    then have "c \<notin> set ys" using Cons.prems by simp
    then have eq: "map (\<lambda>x. if x = c then f x + 1 else f x) ys = map f ys"
      by (intro map_cong) auto
    show ?thesis unfolding list.map sum_list.Cons eq using True by simp
  next
    case False
    then have "sum_list (map (\<lambda>x. if x = c then f x + 1 else f x) ys) = sum_list (map f ys) + 1"
      using Cons by simp
    then show ?thesis using False by simp
  qed
qed

lemma selection_flat:
  assumes inv: "run_inv E state h rt"
  shows "\<exists>c \<in> set (child (nodes h rt)). selection h (Some rt) = Some (Inr c) \<and>
           (visit (nodes h rt) = 0 \<longrightarrow> c = hd (child (nodes h rt)))"
proof -
  let ?cs = "child (nodes h rt)"
  have g: "grown E state h rt" and k: "counts_ok h" and t: "tallied h rt" and ne: "?cs \<noteq> []"
    using inv by (simp_all add: run_inv_def)
  have nn: "\<forall>c \<in> set ?cs. 0 \<le> visit (nodes h c)"
    using k unfolding counts_ok_def by (meson order_trans)
  have sum: "visit (nodes h rt) = sum_list (map (\<lambda>c. visit (nodes h c)) ?cs)"
    using t by (simp add: tallied_def)
  show ?thesis
  proof (cases "\<exists>c \<in> set ?cs. visit (nodes h c) = 0")
    case True
    let ?c = "hd (filter (\<lambda>c. visit (nodes h c) = 0) ?cs)"
    have sel: "selection h (Some rt) = Some (Inr ?c)"
      using scan_unvisited[OF True] selection_return[OF ne] by simp
    have flt: "filter (\<lambda>c. visit (nodes h c) = 0) ?cs \<noteq> []"
      using True by (simp add: filter_empty_conv)
    then have "?c \<in> set (filter (\<lambda>c. visit (nodes h c) = 0) ?cs)" by (rule hd_in_set)
    then have mem: "?c \<in> set ?cs" by simp
    have "?c = hd ?cs" if z: "visit (nodes h rt) = 0"
    proof -
      have "visit (nodes h (hd ?cs)) \<le> visit (nodes h rt)"
        unfolding sum using nn ne by (intro member_le_sum_list_int) auto
      then have "visit (nodes h (hd ?cs)) = 0" using z nn ne by (simp add: order_antisym)
      then show ?thesis using ne by (cases ?cs) auto
    qed
    then show ?thesis using sel mem by blast
  next
    case False
    then have cv1: "\<forall>c \<in> set ?cs. 1 \<le> visit (nodes h c)" using nn by force
    have cv: "\<forall>c \<in> set ?cs. 1 \<le> visit (nodes h c) \<and> 0 \<le> win (nodes h c)"
      using cv1 k by (simp add: counts_ok_def)
    have "1 \<le> visit (nodes h (hd ?cs))" using cv1 ne by simp
    moreover have "visit (nodes h (hd ?cs)) \<le> visit (nodes h rt)"
      unfolding sum using nn ne by (intro member_le_sum_list_int) auto
    ultimately have rv: "1 \<le> visit (nodes h rt)" by simp
    from selection_visited[OF ne rv cv]
    obtain pre b post where d: "?cs = pre @ b # post"
      "selection h (Some rt) = selection h (Some b)" by blast
    have mem: "b \<in> set ?cs" unfolding d(1) by simp
    then have "child (nodes h b) = []" using g by (simp add: grown_def)
    then have "selection h (Some rt) = Some (Inr b)" using d(2) selection_leaf by simp
    then show ?thesis using mem rv by auto
  qed
qed

lemma backPropagation_flat:
  assumes "grown E state h rt" "c \<in> set (child (nodes h rt))"
  shows "backPropagation h (Some c) (if r then 1 else 0) = Some (stepped h rt c r)"
proof -
  have "chain h (Some c) [c, rt]" using assms by (simp add: grown_def)
  from backPropagation_chain[OF this] show ?thesis by (simp add: stepped_def)
qed

lemma same_shape_refl: "same_shape h h"
  by (simp add: same_shape_def)

lemma same_shape_trans: "same_shape h h' \<Longrightarrow> same_shape h' h'' \<Longrightarrow> same_shape h h''"
  by (simp add: same_shape_def)

lemma grown_same_shape: "same_shape h h' \<Longrightarrow> grown E state h rt \<Longrightarrow> grown E state h' rt"
  by (simp add: same_shape_def grown_def)

lemma stepped_shape: "same_shape h (stepped h rt c r)"
  by (simp add: same_shape_def stepped_def bump_def)

lemma stepped_inv:
  assumes inv: "run_inv E state h rt" and c: "c \<in> set (child (nodes h rt))"
    and first: "visit (nodes h rt) = 0 \<longrightarrow> c = hd (child (nodes h rt))"
  shows "run_inv E state (stepped h rt c r) rt"
    and "visit (nodes (stepped h rt c r) rt) = visit (nodes h rt) + 1"
proof -
  let ?cs = "child (nodes h rt)" and ?h' = "stepped h rt c r"
  have g: "grown E state h rt" and k: "counts_ok h" and t: "tallied h rt" and ne: "?cs \<noteq> []"
    using inv by (simp_all add: run_inv_def)
  have crt: "c \<noteq> rt" and dist: "distinct ?cs" and rtn: "rt \<notin> set ?cs"
    using g c by (auto simp: grown_def)
  have sh: "same_shape h ?h'" by (rule stepped_shape)
  have g': "grown E state ?h' rt" using sh g by (rule grown_same_shape)
  have k': "counts_ok ?h'" unfolding stepped_def using k by (intro counts_ok_bump) auto
  have cs': "child (nodes ?h' rt) = ?cs" using sh by (simp add: same_shape_def)
  show vr: "visit (nodes ?h' rt) = visit (nodes h rt) + 1"
    using crt by (simp add: stepped_def bump_def)
  have vc: "\<forall>x \<in> set ?cs. visit (nodes ?h' x) = (if x = c then visit (nodes h x) + 1 else visit (nodes h x))"
    using rtn by (auto simp: stepped_def bump_def)
  have meq: "map (\<lambda>x. visit (nodes ?h' x)) ?cs =
          map (\<lambda>x. if x = c then visit (nodes h x) + 1 else visit (nodes h x)) ?cs"
    using vc by (intro map_cong) auto
  have "sum_list (map (\<lambda>x. visit (nodes ?h' x)) ?cs) =
      sum_list (map (\<lambda>x. visit (nodes h x)) ?cs) + 1"
    unfolding meq by (rule sum_list_bump_one[OF dist c])
  then have s': "visit (nodes ?h' rt) = sum_list (map (\<lambda>x. visit (nodes ?h' x)) (child (nodes ?h' rt)))"
    unfolding cs' vr using t by (simp add: tallied_def)
  have nn: "0 \<le> visit (nodes h (hd ?cs))"
    using k unfolding counts_ok_def by (meson order_trans)
  have hdm: "hd ?cs \<in> set ?cs" using ne by simp
  have "1 \<le> visit (nodes ?h' (hd ?cs))"
  proof (cases "visit (nodes h rt) = 0")
    case True
    then have "c = hd ?cs" using first by simp
    then show ?thesis using vc hdm nn by simp
  next
    case False
    then have "1 \<le> visit (nodes h (hd ?cs))" using t by (simp add: tallied_def)
    then show ?thesis using vc hdm by auto
  qed
  then have t': "tallied ?h' rt" using s' unfolding tallied_def cs' by simp
  show "run_inv E state ?h' rt" using g' k' t' ne cs' by (simp add: run_inv_def)
qed

lemma iteration_flat:
  assumes inv: "run_inv E state h rt" and w: "who this = black \<or> who this = white"
  shows "\<exists>c \<in> set (child (nodes h rt)). selection h (Some rt) = Some (Inr c) \<and>
           (visit (nodes h rt) = 0 \<longrightarrow> c = hd (child (nodes h rt))) \<and>
           ((oneSim E this h c = None \<and> iteration E this rt h = None) \<or>
            (\<exists>r. oneSim E this h c = Some (Inr r) \<and>
                 iteration E this rt h = Some (Inr (stepped h rt c r))))"
proof -
  from selection_flat[OF inv] obtain c where c: "c \<in> set (child (nodes h rt))"
    "selection h (Some rt) = Some (Inr c)"
    "visit (nodes h rt) = 0 \<longrightarrow> c = hd (child (nodes h rt))" by blast
  have g: "grown E state h rt" using inv by (simp add: run_inv_def)
  obtain p q where pq: "sim_players E (who this) = Inr (p, q)"
    using w by (auto simp: sim_players_black sim_players_white)
  note run = oneSim_runs[OF pq, of h c]
  show ?thesis
  proof (cases "rollout E p q False (bd (nodes h c))")
    case None
    then have "oneSim E this h c = None \<and> iteration E this rt h = None"
      using run c(2) by (simp add: iteration_def)
    then show ?thesis using c by blast
  next
    case (Some r)
    then have o: "oneSim E this h c = Some (Inr r)" using run by simp
    have "iteration E this rt h = Some (Inr (stepped h rt c r))"
      using o c(2) backPropagation_flat[OF g c(1), of r] by (simp add: iteration_def)
    then show ?thesis using c o by blast
  qed
qed

subsection \<open>The loop of the controller\<close>

lemma oneSim_returns:
  assumes "who this = black \<or> who this = white" "decreasing E m"
  shows "\<exists>r. oneSim E this h c = Some (Inr r)"
proof -
  obtain p q where pq: "sim_players E (who this) = Inr (p, q)"
    using assms(1) by (auto simp: sim_players_black sim_players_white)
  obtain r where "rollout E p q False (bd (nodes h c)) = Some r"
    using rollout_terminates[OF assms(2)] by blast
  then show ?thesis using oneSim_runs[OF pq, of h c] by simp
qed

lemma sim_loop_0: "sim_loop E this rt 0 h = Some (Inr h)"
  by (subst sim_loop.simps) simp

lemma sim_loop_Suc:
  "sim_loop E this rt (int (Suc k)) h =
     (case iteration E this rt h of
        None \<Rightarrow> None
      | Some (Inl err) \<Rightarrow> Some (Inl err)
      | Some (Inr h') \<Rightarrow> sim_loop E this rt (int k) h')"
  by (subst sim_loop.simps) (simp split: option.split sum.split)

text \<open>A run of \<open>j + k\<close> iterations passes through the store after \<open>j\<close> iterations.\<close>

lemma sim_loop_add:
  "sim_loop E this rt (int (j + k)) h =
     (case sim_loop E this rt (int j) h of
        None \<Rightarrow> None
      | Some (Inl err) \<Rightarrow> Some (Inl err)
      | Some (Inr h') \<Rightarrow> sim_loop E this rt (int k) h')"
proof (induction j arbitrary: h)
  case 0
  then show ?case using sim_loop_0[of E this rt h] by simp
next
  case (Suc j)
  have "sim_loop E this rt (int (Suc j + k)) h = sim_loop E this rt (int (Suc (j + k))) h"
    by simp
  also have "\<dots> = (case iteration E this rt h of
        None \<Rightarrow> None
      | Some (Inl err) \<Rightarrow> Some (Inl err)
      | Some (Inr h') \<Rightarrow> sim_loop E this rt (int (j + k)) h')"
    by (rule sim_loop_Suc)
  finally show ?case
    unfolding sim_loop_Suc[of E this rt j h] using Suc.IH
    by (simp split: option.split sum.split)
qed

lemma sim_loop_flat:
  assumes w: "who this = black \<or> who this = white"
  shows "run_inv E state h rt \<Longrightarrow>
     (\<forall>e. sim_loop E this rt (int k) h \<noteq> Some (Inl e)) \<and>
     (\<forall>h'. sim_loop E this rt (int k) h = Some (Inr h') \<longrightarrow>
        run_inv E state h' rt \<and> same_shape h h' \<and>
        visit (nodes h' rt) = visit (nodes h rt) + int k) \<and>
     (decreasing E m \<longrightarrow> (\<exists>h'. sim_loop E this rt (int k) h = Some (Inr h')))"
proof (induction k arbitrary: h)
  case 0
  then show ?case using sim_loop_0[of E this rt h] by (simp add: same_shape_refl)
next
  case (Suc k)
  from iteration_flat[OF Suc.prems w]
  obtain c where c: "c \<in> set (child (nodes h rt))"
    "visit (nodes h rt) = 0 \<longrightarrow> c = hd (child (nodes h rt))"
    and alt: "(oneSim E this h c = None \<and> iteration E this rt h = None) \<or>
            (\<exists>r. oneSim E this h c = Some (Inr r) \<and>
                 iteration E this rt h = Some (Inr (stepped h rt c r)))" by blast
  from alt show ?case
  proof
    assume a: "oneSim E this h c = None \<and> iteration E this rt h = None"
    then have n: "sim_loop E this rt (int (Suc k)) h = None"
      unfolding sim_loop_Suc by simp
    have "\<not> decreasing E m" using oneSim_returns[OF w, of E m h c] a by auto
    then show ?thesis unfolding n by simp
  next
    assume "\<exists>r. oneSim E this h c = Some (Inr r) \<and>
                 iteration E this rt h = Some (Inr (stepped h rt c r))"
    then obtain r where r: "iteration E this rt h = Some (Inr (stepped h rt c r))" by blast
    let ?h1 = "stepped h rt c r"
    have s: "sim_loop E this rt (int (Suc k)) h = sim_loop E this rt (int k) ?h1"
      unfolding sim_loop_Suc r by simp
    note si = stepped_inv[OF Suc.prems c(1) c(2), of r]
    note IH = Suc.IH[OF si(1)]
    have sh: "same_shape h ?h1" by (rule stepped_shape)
    have a: "\<forall>e. sim_loop E this rt (int k) ?h1 \<noteq> Some (Inl e)" using IH by (elim conjE)
    have b: "\<forall>h'. sim_loop E this rt (int k) ?h1 = Some (Inr h') \<longrightarrow>
        run_inv E state h' rt \<and> same_shape ?h1 h' \<and>
        visit (nodes h' rt) = visit (nodes ?h1 rt) + int k" using IH by (elim conjE)
    have d: "decreasing E m \<longrightarrow> (\<exists>h'. sim_loop E this rt (int k) ?h1 = Some (Inr h'))"
      using IH by (elim conjE)
    have b': "\<forall>h'. sim_loop E this rt (int k) ?h1 = Some (Inr h') \<longrightarrow>
        run_inv E state h' rt \<and> same_shape h h' \<and>
        visit (nodes h' rt) = visit (nodes h rt) + int (Suc k)"
    proof (intro allI impI)
      fix h' assume "sim_loop E this rt (int k) ?h1 = Some (Inr h')"
      then have x: "run_inv E state h' rt" "same_shape ?h1 h'"
        "visit (nodes h' rt) = visit (nodes ?h1 rt) + int k" using b by blast+
      have "same_shape h h'" using sh x(2) by (rule same_shape_trans)
      moreover have "visit (nodes h' rt) = visit (nodes h rt) + int (Suc k)"
        using x(3) si(2) by simp
      ultimately show "run_inv E state h' rt \<and> same_shape h h' \<and>
        visit (nodes h' rt) = visit (nodes h rt) + int (Suc k)" using x(1) by blast
    qed
    show ?thesis unfolding s using a b' d by (intro conjI)
  qed
qed

lemma iteration_counts_ok:
  assumes "counts_ok h" "iteration E this rt h = Some (Inr h')"
  shows "counts_ok h'"
proof -
  from assms(2) obtain c r where "backPropagation h (Some c) (if r then 1 else 0) = Some h'"
    by (auto simp: iteration_def split: option.splits sum.splits)
  from counts_ok_backPropagation[OF this] assms(1) show ?thesis by simp
qed

lemma sim_loop_counts_ok:
  "counts_ok h \<Longrightarrow> sim_loop E this rt (int k) h = Some (Inr h') \<Longrightarrow> counts_ok h'"
proof (induction k arbitrary: h)
  case 0
  then show ?case using sim_loop_0[of E this rt h] by simp
next
  case (Suc k)
  from Suc.prems(2) obtain h1 where h1: "iteration E this rt h = Some (Inr h1)"
    "sim_loop E this rt (int k) h1 = Some (Inr h')"
    unfolding sim_loop_Suc by (auto split: option.splits sum.splits)
  have "counts_ok h1" using Suc.prems(1) h1(1) by (rule iteration_counts_ok)
  then show ?case using h1(2) by (rule Suc.IH)
qed

lemma build_root_counts_ok:
  assumes "build_root E this state = (rt, this', h2)"
  shows "counts_ok h2"
proof -
  obtain sp e where sh: "shuffle E (space this) (engine this) = (sp, e)"
    by (cases "shuffle E (space this) (engine this)")
  from build_root_props[OF sh, of state] assms show ?thesis by auto
qed

lemma build_root_run:
  assumes br: "build_root E this state = (rt, this', h2)" and ne: "child (nodes h2 rt) \<noteq> []"
  shows "rt = 0" and "who this' = who this" and "sim_counts this' = sim_counts this"
    and "run_inv E state h2 rt" and "visit (nodes h2 rt) = 0"
    and "child (nodes h2 rt) = [1 ..< top h2]"
proof -
  obtain sp e where sh: "shuffle E (space this) (engine this) = (sp, e)"
    by (cases "shuffle E (space this) (engine this)")
  from build_root_props[OF sh, of state] br
  have rt: "rt = 0" and this': "this' = this\<lparr>space := sp, engine := e\<rparr>"
    and g: "grown E state h2 0" and k: "counts_ok h2"
    and z: "\<forall>c. visit (nodes h2 c) = 0 \<and> win (nodes h2 c) = 0"
    and ch: "child (nodes h2 0) = [1 ..< top h2]" by auto
  show "rt = 0" by (rule rt)
  show "who this' = who this" "sim_counts this' = sim_counts this" using this' by simp_all
  show "visit (nodes h2 rt) = 0" using z by simp
  show "child (nodes h2 rt) = [1 ..< top h2]" using ch rt by simp
  have "sum_list (map (\<lambda>c. visit (nodes h2 c)) (child (nodes h2 0))) = 0"
    using z by simp
  then have "tallied h2 0" using z by (simp add: tallied_def)
  then show "run_inv E state h2 rt" using g k ne rt by (simp add: run_inv_def)
qed

lemma legal_filter:
  assumes "shuffle_ok E" "player_ok E w this" "shuffle E (space this) (engine this) = (sp, e)"
  shows "filter (\<lambda>mv. apply_action E mv state \<noteq> None) sp = [] \<longleftrightarrow> no_move E w state"
proof -
  have "set sp = (\<lambda>i. place i w) ` {..< cells E}"
    using shuffle_set[OF assms(1,3)] assms(2) by (simp add: player_ok_def)
  then show ?thesis
    by (auto simp: filter_empty_conv no_move_def apply_action_def)
qed

lemma build_root_children:
  assumes "shuffle_ok E" "player_ok E w this" "build_root E this state = (rt, this', h2)"
  shows "child (nodes h2 rt) = [] \<longleftrightarrow> no_move E w state"
proof -
  obtain sp e where sh: "shuffle E (space this) (engine this) = (sp, e)"
    by (cases "shuffle E (space this) (engine this)")
  from build_root_props[OF sh, of state] assms(3)
  have "rt = 0" and "map (\<lambda>c. move (nodes h2 c)) (child (nodes h2 0)) =
        filter (\<lambda>mv. apply_action E mv state \<noteq> None) sp" by auto
  then have "child (nodes h2 rt) = [] \<longleftrightarrow> filter (\<lambda>mv. apply_action E mv state \<noteq> None) sp = []"
    by (metis map_is_Nil_conv)
  then show ?thesis using legal_filter[OF assms(1,2) sh] by simp
qed

subsection \<open>The decision\<close>

lemma best_child_char:
  assumes "\<forall>c \<in> set cs. 0 \<le> visit (nodes h c)"
  shows "(best_child h cs (Fin x) bm = bm \<and>
           (\<forall>c \<in> set cs. 0 < visit (nodes h c) \<longrightarrow> spec_rate h c \<le> x)) \<or>
         (\<exists>pre b post. cs = pre @ b # post \<and> 0 < visit (nodes h b) \<and>
            best_child h cs (Fin x) bm = move (nodes h b) \<and> x < spec_rate h b \<and>
            (\<forall>d \<in> set pre. 0 < visit (nodes h d) \<longrightarrow> spec_rate h d < spec_rate h b) \<and>
            (\<forall>d \<in> set post. 0 < visit (nodes h d) \<longrightarrow> spec_rate h d \<le> spec_rate h b))"
  using assms
proof (induction cs arbitrary: x bm)
  case Nil
  then show ?case by simp
next
  case (Cons c cs)
  have rest: "\<forall>c \<in> set cs. 0 \<le> visit (nodes h c)" using Cons.prems by simp
  show ?case
  proof (cases "visit (nodes h c) = 0")
    case True
    then have e: "best_child h (c # cs) (Fin x) bm = best_child h cs (Fin x) bm" by simp
    from Cons.IH[OF rest, of x bm] show ?thesis
    proof
      assume "best_child h cs (Fin x) bm = bm \<and>
           (\<forall>c \<in> set cs. 0 < visit (nodes h c) \<longrightarrow> spec_rate h c \<le> x)"
      then show ?thesis using e True by simp
    next
      assume "\<exists>pre b post. cs = pre @ b # post \<and> 0 < visit (nodes h b) \<and>
            best_child h cs (Fin x) bm = move (nodes h b) \<and> x < spec_rate h b \<and>
            (\<forall>d \<in> set pre. 0 < visit (nodes h d) \<longrightarrow> spec_rate h d < spec_rate h b) \<and>
            (\<forall>d \<in> set post. 0 < visit (nodes h d) \<longrightarrow> spec_rate h d \<le> spec_rate h b)"
      then obtain pre b post where d: "cs = pre @ b # post" "0 < visit (nodes h b)"
        "best_child h cs (Fin x) bm = move (nodes h b)" "x < spec_rate h b"
        "\<forall>d \<in> set pre. 0 < visit (nodes h d) \<longrightarrow> spec_rate h d < spec_rate h b"
        "\<forall>d \<in> set post. 0 < visit (nodes h d) \<longrightarrow> spec_rate h d \<le> spec_rate h b" by blast
      have "c # cs = (c # pre) @ b # post" using d(1) by simp
      moreover have "\<forall>d \<in> set (c # pre). 0 < visit (nodes h d) \<longrightarrow> spec_rate h d < spec_rate h b"
        using d(5) True by simp
      ultimately show ?thesis using d(2,3,4,6) e by metis
    qed
  next
    case False
    then have pos: "0 < visit (nodes h c)" using Cons.prems by force
    have rt: "ratio (win (nodes h c)) (visit (nodes h c)) = Fin (spec_rate h c)"
      using False by (simp add: ratio_def spec_rate_def)
    show ?thesis
    proof (cases "x < spec_rate h c")
      case True
      have e: "best_child h (c # cs) (Fin x) bm = best_child h cs (Fin (spec_rate h c)) (move (nodes h c))"
        using False rt True by (simp add: Let_def)
      from Cons.IH[OF rest, of "spec_rate h c" "move (nodes h c)"] show ?thesis
      proof
        assume a: "best_child h cs (Fin (spec_rate h c)) (move (nodes h c)) = move (nodes h c) \<and>
           (\<forall>d \<in> set cs. 0 < visit (nodes h d) \<longrightarrow> spec_rate h d \<le> spec_rate h c)"
        have "c # cs = [] @ c # cs" by simp
        moreover have "\<forall>d \<in> set ([]::nat list). 0 < visit (nodes h d) \<longrightarrow> spec_rate h d < spec_rate h c"
          by simp
        ultimately show ?thesis using a e pos True by metis
      next
        assume "\<exists>pre b post. cs = pre @ b # post \<and> 0 < visit (nodes h b) \<and>
            best_child h cs (Fin (spec_rate h c)) (move (nodes h c)) = move (nodes h b) \<and>
            spec_rate h c < spec_rate h b \<and>
            (\<forall>d \<in> set pre. 0 < visit (nodes h d) \<longrightarrow> spec_rate h d < spec_rate h b) \<and>
            (\<forall>d \<in> set post. 0 < visit (nodes h d) \<longrightarrow> spec_rate h d \<le> spec_rate h b)"
        then obtain pre b post where d: "cs = pre @ b # post" "0 < visit (nodes h b)"
          "best_child h cs (Fin (spec_rate h c)) (move (nodes h c)) = move (nodes h b)"
          "spec_rate h c < spec_rate h b"
          "\<forall>d \<in> set pre. 0 < visit (nodes h d) \<longrightarrow> spec_rate h d < spec_rate h b"
          "\<forall>d \<in> set post. 0 < visit (nodes h d) \<longrightarrow> spec_rate h d \<le> spec_rate h b" by blast
        have "c # cs = (c # pre) @ b # post" using d(1) by simp
        moreover have "\<forall>d \<in> set (c # pre). 0 < visit (nodes h d) \<longrightarrow> spec_rate h d < spec_rate h b"
          using d(4,5) by simp
        moreover have "x < spec_rate h b" using True d(4) by simp
        ultimately show ?thesis using d(2,3,6) e by metis
      qed
    next
      case nlt: False
      have e: "best_child h (c # cs) (Fin x) bm = best_child h cs (Fin x) bm"
        using False rt nlt by (simp add: Let_def)
      from Cons.IH[OF rest, of x bm] show ?thesis
      proof
        assume "best_child h cs (Fin x) bm = bm \<and>
           (\<forall>c \<in> set cs. 0 < visit (nodes h c) \<longrightarrow> spec_rate h c \<le> x)"
        then show ?thesis using e nlt by auto
      next
        assume "\<exists>pre b post. cs = pre @ b # post \<and> 0 < visit (nodes h b) \<and>
            best_child h cs (Fin x) bm = move (nodes h b) \<and> x < spec_rate h b \<and>
            (\<forall>d \<in> set pre. 0 < visit (nodes h d) \<longrightarrow> spec_rate h d < spec_rate h b) \<and>
            (\<forall>d \<in> set post. 0 < visit (nodes h d) \<longrightarrow> spec_rate h d \<le> spec_rate h b)"
        then obtain pre b post where d: "cs = pre @ b # post" "0 < visit (nodes h b)"
          "best_child h cs (Fin x) bm = move (nodes h b)" "x < spec_rate h b"
          "\<forall>d \<in> set pre. 0 < visit (nodes h d) \<longrightarrow> spec_rate h d < spec_rate h b"
          "\<forall>d \<in> set post. 0 < visit (nodes h d) \<longrightarrow> spec_rate h d \<le> spec_rate h b" by blast
        have "c # cs = (c # pre) @ b # post" using d(1) by simp
        moreover have "\<forall>d \<in> set (c # pre). 0 < visit (nodes h d) \<longrightarrow> spec_rate h d < spec_rate h b"
          using d(4,5) nlt by auto
        ultimately show ?thesis using d(2,3,4,6) e by metis
      qed
    qed
  qed
qed

lemma decide_char:
  assumes nn: "\<forall>c \<in> set (child (nodes h rt)). 0 \<le> visit (nodes h c)"
    and ne: "child (nodes h rt) \<noteq> []" and v0: "1 \<le> visit (nodes h (hd (child (nodes h rt))))"
  shows "\<exists>pre b post. child (nodes h rt) = pre @ b # post \<and> 0 < visit (nodes h b) \<and>
            decide h rt = Inr (move (nodes h b)) \<and>
            (\<forall>d \<in> set pre. 0 < visit (nodes h d) \<longrightarrow> spec_rate h d < spec_rate h b) \<and>
            (\<forall>d \<in> set post. 0 < visit (nodes h d) \<longrightarrow> spec_rate h d \<le> spec_rate h b)"
proof -
  obtain c0 rest where cs: "child (nodes h rt) = c0 # rest" using ne by (cases "child (nodes h rt)") auto
  have v: "1 \<le> visit (nodes h c0)" using v0 cs by simp
  have r0: "ratio (win (nodes h c0)) (visit (nodes h c0)) = Fin (spec_rate h c0)"
    using v by (simp add: ratio_def spec_rate_def)
  have de: "decide h rt = Inr (best_child h (c0 # rest) (Fin (spec_rate h c0)) (move (nodes h c0)))"
    using cs r0 by (simp add: decide_def)
  from best_child_char[OF nn, of "spec_rate h c0" "move (nodes h c0)"] show ?thesis
    unfolding cs
  proof
    assume a: "best_child h (c0 # rest) (Fin (spec_rate h c0)) (move (nodes h c0)) = move (nodes h c0) \<and>
           (\<forall>c \<in> set (c0 # rest). 0 < visit (nodes h c) \<longrightarrow> spec_rate h c \<le> spec_rate h c0)"
    have "c0 # rest = [] @ c0 # rest" by simp
    moreover have "0 < visit (nodes h c0)" using v by simp
    moreover have "\<forall>d \<in> set ([]::nat list). 0 < visit (nodes h d) \<longrightarrow> spec_rate h d < spec_rate h c0"
      by simp
    moreover have "\<forall>d \<in> set rest. 0 < visit (nodes h d) \<longrightarrow> spec_rate h d \<le> spec_rate h c0"
      using a by simp
    moreover have "decide h rt = Inr (move (nodes h c0))" using de a by simp
    ultimately show "\<exists>pre b post. c0 # rest = pre @ b # post \<and> 0 < visit (nodes h b) \<and>
            decide h rt = Inr (move (nodes h b)) \<and>
            (\<forall>d \<in> set pre. 0 < visit (nodes h d) \<longrightarrow> spec_rate h d < spec_rate h b) \<and>
            (\<forall>d \<in> set post. 0 < visit (nodes h d) \<longrightarrow> spec_rate h d \<le> spec_rate h b)"
      by blast
  next
    assume "\<exists>pre b post. c0 # rest = pre @ b # post \<and> 0 < visit (nodes h b) \<and>
            best_child h (c0 # rest) (Fin (spec_rate h c0)) (move (nodes h c0)) = move (nodes h b) \<and>
            spec_rate h c0 < spec_rate h b \<and>
            (\<forall>d \<in> set pre. 0 < visit (nodes h d) \<longrightarrow> spec_rate h d < spec_rate h b) \<and>
            (\<forall>d \<in> set post. 0 < visit (nodes h d) \<longrightarrow> spec_rate h d \<le> spec_rate h b)"
    then obtain pre b post where d: "c0 # rest = pre @ b # post" "0 < visit (nodes h b)"
      "best_child h (c0 # rest) (Fin (spec_rate h c0)) (move (nodes h c0)) = move (nodes h b)"
      "\<forall>d \<in> set pre. 0 < visit (nodes h d) \<longrightarrow> spec_rate h d < spec_rate h b"
      "\<forall>d \<in> set post. 0 < visit (nodes h d) \<longrightarrow> spec_rate h d \<le> spec_rate h b" by blast
    have "decide h rt = Inr (move (nodes h b))" unfolding de d(3) ..
    then show "\<exists>pre b post. c0 # rest = pre @ b # post \<and> 0 < visit (nodes h b) \<and>
            decide h rt = Inr (move (nodes h b)) \<and>
            (\<forall>d \<in> set pre. 0 < visit (nodes h d) \<longrightarrow> spec_rate h d < spec_rate h b) \<and>
            (\<forall>d \<in> set post. 0 < visit (nodes h d) \<longrightarrow> spec_rate h d \<le> spec_rate h b)"
      using d(1,2,4,5) by blast
  qed
qed

subsection \<open>A whole move request\<close>

lemma Simulation_unfold:
  "build_root E this state = (rt, this', h2) \<Longrightarrow>
   Simulation E this state =
     (if child (nodes h2 rt) = [] then Some (Inr (noaction, this', h2))
      else (case sim_loop E this' rt (sim_counts this') h2 of
              None \<Rightarrow> None
            | Some (Inl err) \<Rightarrow> Some (Inl err)
            | Some (Inr h3) \<Rightarrow>
                (case decide h3 rt of
                   Inl err \<Rightarrow> Some (Inl err)
                 | Inr bestmove \<Rightarrow> Some (Inr (bestmove, this', h3)))))"
  by (simp add: Simulation_def)

lemma run_inv_first_visited:
  assumes "run_inv E state h rt" "1 \<le> visit (nodes h rt)"
  shows "1 \<le> visit (nodes h (hd (child (nodes h rt))))"
    and "\<forall>c \<in> set (child (nodes h rt)). 0 \<le> visit (nodes h c)"
proof -
  show "1 \<le> visit (nodes h (hd (child (nodes h rt))))"
    using assms by (auto simp: run_inv_def tallied_def)
  have "counts_ok h" using assms(1) by (simp add: run_inv_def)
  then show "\<forall>c \<in> set (child (nodes h rt)). 0 \<le> visit (nodes h c)"
    unfolding counts_ok_def by (meson order_trans)
qed

lemma Simulation_flat:
  assumes br: "build_root E this state = (rt, this', h2)" and ne: "child (nodes h2 rt) \<noteq> []"
    and w: "who this = black \<or> who this = white" and dec: "decreasing E m"
    and sc: "sim_counts this = int K" and K: "1 \<le> K"
  shows "\<exists>h3 pre b post.
      Simulation E this state = Some (Inr (move (nodes h3 b), this', h3)) \<and>
      run_inv E state h3 rt \<and> same_shape h2 h3 \<and> visit (nodes h3 rt) = int K \<and>
      child (nodes h3 rt) = pre @ b # post \<and> 0 < visit (nodes h3 b) \<and>
      (\<forall>d \<in> set pre. 0 < visit (nodes h3 d) \<longrightarrow> spec_rate h3 d < spec_rate h3 b) \<and>
      (\<forall>d \<in> set post. 0 < visit (nodes h3 d) \<longrightarrow> spec_rate h3 d \<le> spec_rate h3 b)"
proof -
  note b = build_root_run[OF br ne]
  have w': "who this' = black \<or> who this' = white" using w b(2) by simp
  note sl = sim_loop_flat[OF w' b(4), of K m]
  obtain h3 where h3: "sim_loop E this' rt (int K) h2 = Some (Inr h3)" using sl dec by blast
  then have inv: "run_inv E state h3 rt" and sh: "same_shape h2 h3"
    and v: "visit (nodes h3 rt) = int K" using sl b(5) by auto
  have ne3: "child (nodes h3 rt) \<noteq> []" using inv by (simp add: run_inv_def)
  have v1: "1 \<le> visit (nodes h3 rt)" using v K by simp
  note fv = run_inv_first_visited[OF inv v1]
  from decide_char[OF fv(2) ne3 fv(1)]
  obtain pre b post where d: "child (nodes h3 rt) = pre @ b # post" "0 < visit (nodes h3 b)"
    "decide h3 rt = Inr (move (nodes h3 b))"
    "\<forall>d \<in> set pre. 0 < visit (nodes h3 d) \<longrightarrow> spec_rate h3 d < spec_rate h3 b"
    "\<forall>d \<in> set post. 0 < visit (nodes h3 d) \<longrightarrow> spec_rate h3 d \<le> spec_rate h3 b" by blast
  have "Simulation E this state = Some (Inr (move (nodes h3 b), this', h3))"
    unfolding Simulation_unfold[OF br] using ne h3 d(3) b(3) sc by simp
  then show ?thesis using inv sh v d(1,2,4,5) by blast
qed

subsection \<open>The example request\<close>

lemma sim_loop_nonpos: "i \<le> 0 \<Longrightarrow> sim_loop E this rt i h = Some (Inr h)"
  by (subst sim_loop.simps) simp

lemma sim_loop_counts_ok_int:
  assumes "counts_ok h" "sim_loop E this rt i h = Some (Inr h')"
  shows "counts_ok h'"
proof (cases "i \<le> 0")
  case True
  then show ?thesis using assms sim_loop_nonpos[OF True, of E this rt h] by simp
next
  case False
  then have "i = int (nat i)" by simp
  then show ?thesis using assms sim_loop_counts_ok[of h E this rt "nat i" h'] by simp
qed

lemma final_store_counts_ok:
  assumes "final_store E this state = Some hf"
  shows "counts_ok hf"
proof -
  obtain rt this' h2 where br: "build_root E this state = (rt, this', h2)"
    by (cases "build_root E this state")
  have k2: "counts_ok h2" using br by (rule build_root_counts_ok)
  show ?thesis
  proof (cases "child (nodes h2 rt) = []")
    case True
    then have "final_store E this state = Some h2"
      by (simp add: final_store_def take_action_def Simulation_unfold[OF br])
    then show ?thesis using assms k2 by simp
  next
    case False
    then have "sim_loop E this' rt (sim_counts this') h2 = Some (Inr hf)"
      using assms
      by (auto simp: final_store_def take_action_def Simulation_unfold[OF br]
            split: option.splits sum.splits)
    then show ?thesis using k2 sim_loop_counts_ok_int by blast
  qed
qed

lemma row_not_stuck: "\<not> no_move (row_env 2) black [empty, empty]"
  by (simp add: no_move_def row_env_def) (rule exI[of _ 0], simp)

lemma row_who: "who (row_player 2) = black \<or> who (row_player 2) = white"
  by (simp add: row_player_def)

lemma row_build:
  obtains this' h2 where "build_root (row_env 2) (row_player 2) [empty, empty] = (0, this', h2)"
    and "child (nodes h2 0) = [1, 2]" and "bd (nodes h2 1) = [black, empty]"
    and "who this' = black" and "sim_counts this' = 100"
proof -
  obtain rt this' h2 where br: "build_root (row_env 2) (row_player 2) [empty, empty] = (rt, this', h2)"
    by (cases "build_root (row_env 2) (row_player 2) [empty, empty]")
  have rt: "rt = 0" using br by (simp add: build_root_def new_Node_def empty_heap_def split: prod.splits)
  have "child (nodes (snd (snd (build_root (row_env 2) (row_player 2) [empty, empty]))) 0) = [1, 2]"
    by code_simp
  then have c: "child (nodes h2 0) = [1, 2]" using br by simp
  have "bd (nodes (snd (snd (build_root (row_env 2) (row_player 2) [empty, empty]))) 1) = [black, empty]"
    by code_simp
  then have b: "bd (nodes h2 1) = [black, empty]" using br by simp
  have ne: "child (nodes h2 rt) \<noteq> []" using c rt by simp
  have "who this' = black" "sim_counts this' = 100"
    using build_root_run(2,3)[OF br ne] by (simp_all add: row_player_def)
  then show ?thesis using that br rt c b by blast
qed

lemma iteration_parts:
  assumes "iteration E this rt h = Some (Inr h1)"
  shows "\<exists>c r. selection h (Some rt) = Some (Inr c) \<and> oneSim E this h c = Some (Inr r) \<and>
         backPropagation h (Some c) (if r then 1 else 0) = Some h1"
proof (cases "selection h (Some rt)")
  case None
  then show ?thesis using assms by (simp add: iteration_def)
next
  case (Some a)
  show ?thesis
  proof (cases a)
    case (Inl e)
    then show ?thesis using assms Some by (simp add: iteration_def)
  next
    case (Inr c)
    show ?thesis
    proof (cases "oneSim E this h c")
      case None
      then show ?thesis using assms Some Inr by (simp add: iteration_def)
    next
      case os: (Some o1)
      show ?thesis
      proof (cases o1)
        case (Inl e)
        then show ?thesis using assms Some Inr os by (simp add: iteration_def)
      next
        case r: (Inr r)
        have "backPropagation h (Some c) (if r then 1 else 0) = Some h1"
          using assms Some Inr os r by (simp add: iteration_def)
        then show ?thesis using Some Inr os r by blast
      qed
    qed
  qed
qed

lemma row_run:
  obtains this' h2 hk where "build_root (row_env 2) (row_player 2) [empty, empty] = (0, this', h2)"
    and "child (nodes h2 0) = [1, 2]" and "bd (nodes h2 1) = [black, empty]"
    and "who this' = black"
    and "sim_loop (row_env 2) this' 0 (int k) h2 = Some (Inr hk)"
    and "run_inv (row_env 2) [empty, empty] hk 0" and "same_shape h2 hk"
    and "visit (nodes hk 0) = int k"
proof -
  obtain this' h2 where br: "build_root (row_env 2) (row_player 2) [empty, empty] = (0, this', h2)"
    and c: "child (nodes h2 0) = [1, 2]" and b: "bd (nodes h2 1) = [black, empty]"
    and w: "who this' = black" by (rule row_build)
  have ne: "child (nodes h2 0) \<noteq> []" using c by simp
  note r = build_root_run[OF br ne]
  have w': "who this' = black \<or> who this' = white" using w by simp
  note sl = sim_loop_flat[OF w' r(4), of k empties]
  have s2: "\<forall>h'. sim_loop (row_env 2) this' 0 (int k) h2 = Some (Inr h') \<longrightarrow>
        run_inv (row_env 2) [empty, empty] h' 0 \<and> same_shape h2 h' \<and>
        visit (nodes h' 0) = visit (nodes h2 0) + int k"
    using sl by (elim conjE)
  have s3: "decreasing (row_env 2) empties \<longrightarrow>
      (\<exists>h'. sim_loop (row_env 2) this' 0 (int k) h2 = Some (Inr h'))"
    using sl by (elim conjE)
  from s3 decreasing_row[of 2]
  obtain hk where hk: "sim_loop (row_env 2) this' 0 (int k) h2 = Some (Inr hk)" by blast
  then have "run_inv (row_env 2) [empty, empty] hk 0" "same_shape h2 hk"
    "visit (nodes hk 0) = visit (nodes h2 0) + int k" using s2 by blast+
  then show ?thesis using that[OF br c b w hk] r(5) by simp
qed

lemma row_final:
  obtains a this' h2 h3 where
    "build_root (row_env 2) (row_player 2) [empty, empty] = (0, this', h2)"
    and "bd (nodes h2 1) = [black, empty]"
    and "take_action (row_env 2) (row_player 2) [empty, empty] = Some (Inr (a, this', h3))"
    and "final_store (row_env 2) (row_player 2) [empty, empty] = Some h3"
    and "run_inv (row_env 2) [empty, empty] h3 0" and "same_shape h2 h3"
    and "visit (nodes h3 0) = 100" and "child (nodes h3 0) = [1, 2]"
proof -
  obtain this' h2 where br: "build_root (row_env 2) (row_player 2) [empty, empty] = (0, this', h2)"
    and c: "child (nodes h2 0) = [1, 2]" and b: "bd (nodes h2 1) = [black, empty]"
    by (rule row_build)
  have ne: "child (nodes h2 0) \<noteq> []" using c by simp
  have sc: "sim_counts (row_player 2) = int 100" by (simp add: row_player_def)
  from Simulation_flat[OF br ne row_who decreasing_row sc]
  obtain h3 bb where s: "Simulation (row_env 2) (row_player 2) [empty, empty] =
      Some (Inr (move (nodes h3 bb), this', h3))"
    and inv: "run_inv (row_env 2) [empty, empty] h3 0" and sh: "same_shape h2 h3"
    and v: "visit (nodes h3 0) = int 100" by auto
  have ta: "take_action (row_env 2) (row_player 2) [empty, empty] =
      Some (Inr (move (nodes h3 bb), this', h3))" using s by (simp add: take_action_def)
  then have fs: "final_store (row_env 2) (row_player 2) [empty, empty] = Some h3"
    by (simp add: final_store_def)
  have "child (nodes h3 0) = [1, 2]" using sh c by (simp add: same_shape_def)
  then show ?thesis using that[OF br b ta fs inv sh] v by simp
qed

lemma sim_loop_flat_inv:
  assumes "who this = black \<or> who this = white" "run_inv E state h rt"
    "sim_loop E this rt (int k) h = Some (Inr h')"
  shows "run_inv E state h' rt" and "same_shape h h'"
    and "visit (nodes h' rt) = visit (nodes h rt) + int k"
proof -
  note sl = sim_loop_flat[OF assms(1,2), of k "\<lambda>_. 0"]
  have "\<forall>h'. sim_loop E this rt (int k) h = Some (Inr h') \<longrightarrow>
        run_inv E state h' rt \<and> same_shape h h' \<and>
        visit (nodes h' rt) = visit (nodes h rt) + int k"
    using sl by (elim conjE)
  then show "run_inv E state h' rt" and "same_shape h h'"
    and "visit (nodes h' rt) = visit (nodes h rt) + int k" using assms(3) by blast+
qed

lemma row_top:
  assumes "build_root (row_env 2) (row_player 2) [empty, empty] = (rt, this', h2)"
  shows "top h2 = 3"
proof -
  have "top (snd (snd (build_root (row_env 2) (row_player 2) [empty, empty]))) = 3"
    by code_simp
  then show ?thesis using assms by simp
qed

subsection \<open>Divisors\<close>

lemma scan_divisors_pos:
  "\<forall>c \<in> set cs. 0 \<le> visit (nodes h c) \<Longrightarrow> \<forall>d \<in> set (scan_divisors h cs). 0 < d"
  by (induction cs) auto

lemma best_child_divisors_pos:
  "\<forall>c \<in> set cs. 0 \<le> visit (nodes h c) \<Longrightarrow> \<forall>d \<in> set (best_child_divisors h cs). 0 < d"
  by (induction cs) auto

lemma scan_flat:
  assumes inv: "run_inv E state h rt"
  shows "(\<exists>c. scan h rt (child (nodes h rt)) None (Fin (- 99999)) = Return c) \<or>
         (\<exists>c \<in> set (child (nodes h rt)).
            scan h rt (child (nodes h rt)) None (Fin (- 99999)) = Done (Some c))"
proof -
  let ?cs = "child (nodes h rt)"
  have k: "counts_ok h" and t: "tallied h rt" and ne: "?cs \<noteq> []"
    using inv by (simp_all add: run_inv_def)
  have nn: "\<forall>c \<in> set ?cs. 0 \<le> visit (nodes h c)"
    using k unfolding counts_ok_def by (meson order_trans)
  show ?thesis
  proof (cases "\<exists>c \<in> set ?cs. visit (nodes h c) = 0")
    case True
    then show ?thesis using scan_unvisited[OF True] by blast
  next
    case False
    then have cv1: "\<forall>c \<in> set ?cs. 1 \<le> visit (nodes h c)" using nn by force
    have "1 \<le> visit (nodes h (hd ?cs))" using cv1 ne by simp
    moreover have "visit (nodes h (hd ?cs)) \<le> visit (nodes h rt)"
      using t nn ne unfolding tallied_def
      by (metis (no_types, lifting) hd_in_set member_le_sum_list_int)
    ultimately have rv: "1 \<le> visit (nodes h rt)" by simp
    from scan_visited[OF cv1 rv, of None "- 99999"]
    obtain b where b: "scan h rt ?cs None (Fin (- 99999)) = Done b"
      and alt: "(b = None \<and> (\<forall>c \<in> set ?cs. spec_score h rt c \<le> - 99999)) \<or>
       (\<exists>pre c post. ?cs = pre @ c # post \<and> b = Some c \<and> - 99999 < spec_score h rt c \<and>
          (\<forall>d \<in> set pre. spec_score h rt d < spec_score h rt c) \<and>
          (\<forall>d \<in> set post. spec_score h rt d \<le> spec_score h rt c))" by blast
    have hdm: "hd ?cs \<in> set ?cs" using ne by simp
    have "0 \<le> win (nodes h (hd ?cs))" using k by (simp add: counts_ok_def)
    then have "0 \<le> spec_score h rt (hd ?cs)"
      using spec_score_nonneg[OF rv] cv1 hdm by blast
    then have "\<not> (\<forall>c \<in> set ?cs. spec_score h rt c \<le> - 99999)" using hdm by force
    with alt obtain pre c post where "?cs = pre @ c # post" "b = Some c" by blast
    then have "c \<in> set ?cs" "scan h rt ?cs None (Fin (- 99999)) = Done (Some c)"
      using b by simp_all
    then show ?thesis by blast
  qed
qed

lemma selection_divisors_leaf:
  "child (nodes h c) = [] \<Longrightarrow> selection_divisors h (Some c) = Some []"
  by (subst selection_divisors.simps) simp

lemma selection_divisors_flat:
  assumes inv: "run_inv E state h rt"
  shows "selection_divisors h (Some rt) = Some (scan_divisors h (child (nodes h rt)))"
proof -
  have g: "grown E state h rt" and ne: "child (nodes h rt) \<noteq> []"
    using inv by (simp_all add: run_inv_def)
  from scan_flat[OF inv] show ?thesis
  proof
    assume "\<exists>c. scan h rt (child (nodes h rt)) None (Fin (- 99999)) = Return c"
    then obtain c where "scan h rt (child (nodes h rt)) None (Fin (- 99999)) = Return c" ..
    then show ?thesis using ne by (subst selection_divisors.simps) simp
  next
    assume "\<exists>c \<in> set (child (nodes h rt)).
            scan h rt (child (nodes h rt)) None (Fin (- 99999)) = Done (Some c)"
    then obtain c where c: "c \<in> set (child (nodes h rt))"
      "scan h rt (child (nodes h rt)) None (Fin (- 99999)) = Done (Some c)" by blast
    have "child (nodes h c) = []" using g c(1) by (simp add: grown_def)
    then have "selection_divisors h (Some c) = Some []" by (rule selection_divisors_leaf)
    then show ?thesis using ne c(2) by (subst selection_divisors.simps) simp
  qed
qed

subsection \<open>What selection scores, and what a run has won\<close>

lemma scan_divisors_takeWhile:
  "scan_divisors h cs =
     concat (map (\<lambda>c. [visit (nodes h c), visit (nodes h c)])
       (takeWhile (\<lambda>c. visit (nodes h c) \<noteq> 0) cs))"
  by (induction cs) simp_all

lemma selection_divisors_unvisited:
  assumes "child (nodes h r) \<noteq> []" "\<exists>c \<in> set (child (nodes h r)). visit (nodes h c) = 0"
  shows "selection_divisors h (Some r) = Some (scan_divisors h (child (nodes h r)))"
proof -
  have "scan h r (child (nodes h r)) None (Fin (- 99999)) =
     Return (hd (filter (\<lambda>c. visit (nodes h c) = 0) (child (nodes h r))))"
    using assms(2) by (rule scan_unvisited)
  then show ?thesis using assms(1) by (subst selection_divisors.simps) simp
qed

lemma oneSim_bd:
  "bd (nodes h c) = bd (nodes h' c) \<Longrightarrow> oneSim E this h c = oneSim E this h' c"
  by (simp add: oneSim_def split: sum.split prod.split)

lemma oneSim_no_error:
  assumes "who this = black \<or> who this = white"
  shows "oneSim E this h c = None \<or> (\<exists>r. oneSim E this h c = Some (Inr r))"
proof -
  obtain p q where pq: "sim_players E (who this) = Inr (p, q)"
    using assms by (auto simp: sim_players_black sim_players_white)
  show ?thesis unfolding oneSim_runs[OF pq]
    by (cases "rollout E p q False (bd (nodes h c))") simp_all
qed

lemma stepped_wins:
  assumes c: "c \<in> set (child (nodes h rt))" and rt: "rt \<notin> set (child (nodes h rt))"
    and o: "oneSim E this h c = Some (Inr r)"
    and K: "\<forall>d \<in> set (child (nodes h rt)).
       (\<forall>x. oneSim E this h d = Some (Inr x) \<longrightarrow>
          win (nodes h d) = (if x then visit (nodes h d) else 0)) \<and>
       (oneSim E this h d = None \<longrightarrow> visit (nodes h d) = 0 \<and> win (nodes h d) = 0)"
  shows "\<forall>d \<in> set (child (nodes (stepped h rt c r) rt)).
       (\<forall>x. oneSim E this (stepped h rt c r) d = Some (Inr x) \<longrightarrow>
          win (nodes (stepped h rt c r) d) = (if x then visit (nodes (stepped h rt c r) d) else 0)) \<and>
       (oneSim E this (stepped h rt c r) d = None \<longrightarrow>
          visit (nodes (stepped h rt c r) d) = 0 \<and> win (nodes (stepped h rt c r) d) = 0)"
proof
  let ?h' = "stepped h rt c r"
  fix d assume "d \<in> set (child (nodes ?h' rt))"
  then have d: "d \<in> set (child (nodes h rt))" using stepped_shape[of h rt c r]
    by (simp add: same_shape_def)
  have drt: "d \<noteq> rt" using d rt by auto
  have "bd (nodes h d) = bd (nodes ?h' d)" using stepped_shape[of h rt c r]
    by (simp add: same_shape_def)
  then have os: "oneSim E this ?h' d = oneSim E this h d" using oneSim_bd by metis
  have Kd: "\<forall>x. oneSim E this h d = Some (Inr x) \<longrightarrow>
          win (nodes h d) = (if x then visit (nodes h d) else 0)"
    "oneSim E this h d = None \<longrightarrow> visit (nodes h d) = 0 \<and> win (nodes h d) = 0"
    using K d by blast+
  show "(\<forall>x. oneSim E this ?h' d = Some (Inr x) \<longrightarrow>
          win (nodes ?h' d) = (if x then visit (nodes ?h' d) else 0)) \<and>
       (oneSim E this ?h' d = None \<longrightarrow> visit (nodes ?h' d) = 0 \<and> win (nodes ?h' d) = 0)"
  proof (cases "d = c")
    case True
    have w: "win (nodes h c) = (if r then visit (nodes h c) else 0)" using Kd(1) o True by simp
    have v': "visit (nodes ?h' c) = visit (nodes h c) + 1"
      using drt True by (simp add: stepped_def bump_def)
    have w': "win (nodes ?h' c) = win (nodes h c) + (if r then 1 else 0)"
      using drt True by (simp add: stepped_def bump_def)
    have nn: "oneSim E this h c \<noteq> None" using o by simp
    have "win (nodes ?h' c) = (if r then visit (nodes ?h' c) else 0)"
      unfolding v' w' w by simp
    note wc = this
    have osc: "oneSim E this ?h' c = Some (Inr r)" using os o True by simp
    show ?thesis unfolding True
    proof (intro conjI allI impI)
      fix x assume "oneSim E this ?h' c = Some (Inr x)"
      then have "x = r" using osc by simp
      then show "win (nodes ?h' c) = (if x then visit (nodes ?h' c) else 0)" using wc by simp
    next
      assume "oneSim E this ?h' c = None"
      then have False using osc by simp
      then show "visit (nodes ?h' c) = 0" "win (nodes ?h' c) = 0" by simp_all
    qed
  next
    case False
    then have "nodes ?h' d = nodes h d" using drt by (simp add: stepped_def)
    then show ?thesis unfolding os using Kd by simp
  qed
qed

lemma sim_loop_wins:
  assumes w: "who this = black \<or> who this = white"
  shows "run_inv E state h rt \<Longrightarrow>
     \<forall>d \<in> set (child (nodes h rt)).
       (\<forall>x. oneSim E this h d = Some (Inr x) \<longrightarrow>
          win (nodes h d) = (if x then visit (nodes h d) else 0)) \<and>
       (oneSim E this h d = None \<longrightarrow> visit (nodes h d) = 0 \<and> win (nodes h d) = 0) \<Longrightarrow>
     sim_loop E this rt (int k) h = Some (Inr h') \<Longrightarrow>
     \<forall>d \<in> set (child (nodes h' rt)).
       (\<forall>x. oneSim E this h' d = Some (Inr x) \<longrightarrow>
          win (nodes h' d) = (if x then visit (nodes h' d) else 0)) \<and>
       (oneSim E this h' d = None \<longrightarrow> visit (nodes h' d) = 0 \<and> win (nodes h' d) = 0)"
proof (induction k arbitrary: h)
  case 0
  then show ?case using sim_loop_0[of E this rt h] by simp
next
  case (Suc k)
  from iteration_flat[OF Suc.prems(1) w]
  obtain c where c: "c \<in> set (child (nodes h rt))"
    "visit (nodes h rt) = 0 \<longrightarrow> c = hd (child (nodes h rt))"
    and alt: "(oneSim E this h c = None \<and> iteration E this rt h = None) \<or>
            (\<exists>r. oneSim E this h c = Some (Inr r) \<and>
                 iteration E this rt h = Some (Inr (stepped h rt c r)))" by blast
  from alt show ?case
  proof
    assume "oneSim E this h c = None \<and> iteration E this rt h = None"
    then have "sim_loop E this rt (int (Suc k)) h = None" unfolding sim_loop_Suc by simp
    then show ?thesis using Suc.prems(3) by simp
  next
    assume "\<exists>r. oneSim E this h c = Some (Inr r) \<and>
                 iteration E this rt h = Some (Inr (stepped h rt c r))"
    then obtain r where o: "oneSim E this h c = Some (Inr r)"
      and it: "iteration E this rt h = Some (Inr (stepped h rt c r))" by blast
    have s: "sim_loop E this rt (int k) (stepped h rt c r) = Some (Inr h')"
      using Suc.prems(3) unfolding sim_loop_Suc it by simp
    have rtn: "rt \<notin> set (child (nodes h rt))"
      using Suc.prems(1) by (auto simp: run_inv_def grown_def)
    note inv' = stepped_inv(1)[OF Suc.prems(1) c(1) c(2), of r]
    note K' = stepped_wins[OF c(1) rtn o Suc.prems(2)]
    show ?thesis using inv' K' s by (rule Suc.IH)
  qed
qed

lemma run_wins:
  assumes br: "build_root E this state = (rt, this', h2)" and ne: "child (nodes h2 rt) \<noteq> []"
    and w: "who this = black \<or> who this = white"
    and sl: "sim_loop E this' rt (int k) h2 = Some (Inr hk)"
  shows "\<forall>d \<in> set (child (nodes hk rt)).
           win (nodes hk d) = 0 \<or> win (nodes hk d) = visit (nodes hk d)"
proof -
  obtain sp e where sh: "shuffle E (space this) (engine this) = (sp, e)"
    by (cases "shuffle E (space this) (engine this)")
  from build_root_props[OF sh, of state] br
  have z: "\<forall>c. visit (nodes h2 c) = 0 \<and> win (nodes h2 c) = 0" by auto
  note b = build_root_run[OF br ne]
  have w': "who this' = black \<or> who this' = white" using w b(2) by simp
  have K0: "\<forall>d \<in> set (child (nodes h2 rt)).
       (\<forall>x. oneSim E this' h2 d = Some (Inr x) \<longrightarrow>
          win (nodes h2 d) = (if x then visit (nodes h2 d) else 0)) \<and>
       (oneSim E this' h2 d = None \<longrightarrow> visit (nodes h2 d) = 0 \<and> win (nodes h2 d) = 0)"
    using z by simp
  note K = sim_loop_wins[OF w' b(4) K0 sl]
  show ?thesis
  proof
    fix d assume d: "d \<in> set (child (nodes hk rt))"
    from oneSim_no_error[OF w', of E hk d] show "win (nodes hk d) = 0 \<or> win (nodes hk d) = visit (nodes hk d)"
    proof
      assume "oneSim E this' hk d = None"
      then show ?thesis using K d by blast
    next
      assume "\<exists>r. oneSim E this' hk d = Some (Inr r)"
      then obtain r where "oneSim E this' hk d = Some (Inr r)" ..
      then have "win (nodes hk d) = (if r then visit (nodes hk d) else 0)" using K d by blast
      then show ?thesis by (cases r) simp_all
    qed
  qed
qed


lemma iteration_first_unvisited:
  assumes inv: "run_inv E state h rt" and w: "who this = black \<or> who this = white"
    and u: "\<exists>c \<in> set (child (nodes h rt)). visit (nodes h c) = 0"
    and it: "iteration E this rt h = Some (Inr h')"
  shows "\<exists>r. h' = stepped h rt (hd (filter (\<lambda>c. visit (nodes h c) = 0) (child (nodes h rt)))) r"
proof -
  have ne: "child (nodes h rt) \<noteq> []" using inv by (simp add: run_inv_def)
  have sel: "selection h (Some rt) =
      Some (Inr (hd (filter (\<lambda>c. visit (nodes h c) = 0) (child (nodes h rt)))))"
    using scan_unvisited[OF u] selection_return[OF ne] by simp
  from iteration_flat[OF inv w]
  obtain c r where "selection h (Some rt) = Some (Inr c)"
    "iteration E this rt h = Some (Inr (stepped h rt c r))" using it by auto
  then show ?thesis using sel it by auto
qed

lemma row_two_iterations:
  obtains this' h2 hk where
    "build_root (row_env 2) (row_player 2) [empty, empty] = (0, this', h2)"
    and "child (nodes h2 0) = [1, 2]"
    and "sim_loop (row_env 2) this' 0 (int 2) h2 = Some (Inr hk)"
    and "child (nodes hk 0) = [1, 2]"
    and "visit (nodes hk 1) = 1" and "visit (nodes hk 2) = 1"
proof -
  obtain this' h2 hk where br: "build_root (row_env 2) (row_player 2) [empty, empty] = (0, this', h2)"
    and c: "child (nodes h2 0) = [1, 2]" and w: "who this' = black"
    and sl: "sim_loop (row_env 2) this' 0 (int 2) h2 = Some (Inr hk)"
    and sh: "same_shape h2 hk"
    by (rule row_run[of 2])
  have ne: "child (nodes h2 0) \<noteq> []" using c by simp
  have w': "who this' = black \<or> who this' = white" using w by simp
  obtain sp e where shf: "shuffle (row_env 2) (space (row_player 2)) (engine (row_player 2)) = (sp, e)"
    by (cases "shuffle (row_env 2) (space (row_player 2)) (engine (row_player 2))")
  from build_root_props[OF shf, of "[empty, empty]"] br
  have z: "\<forall>c. visit (nodes h2 c) = 0 \<and> win (nodes h2 c) = 0" by auto
  note inv2 = build_root_run(4)[OF br ne]
  have "sim_loop (row_env 2) this' 0 (int (Suc (Suc 0))) h2 = Some (Inr hk)" using sl by simp
  then obtain h1 where it1: "iteration (row_env 2) this' 0 h2 = Some (Inr h1)"
    and sl1: "sim_loop (row_env 2) this' 0 (int (Suc 0)) h1 = Some (Inr hk)"
    unfolding sim_loop_Suc[of _ _ _ "Suc 0"] by (auto split: option.splits sum.splits)
  from sl1 have it2: "iteration (row_env 2) this' 0 h1 = Some (Inr hk)"
    unfolding sim_loop_Suc[of _ _ _ 0] using sim_loop_0[of "row_env 2" this' 0]
    by (auto split: option.splits sum.splits)
  have u2: "\<exists>c \<in> set (child (nodes h2 0)). visit (nodes h2 c) = 0" using z c by auto
  from iteration_first_unvisited[OF inv2 w' u2 it1]
  obtain r1 where h1: "h1 = stepped h2 0 1 r1" using z c by auto
  have c1: "child (nodes h1 0) = [1, 2]" using stepped_shape[of h2 0 1 r1] c h1
    by (simp add: same_shape_def)
  have v1: "visit (nodes h1 1) = 1" "visit (nodes h1 2) = 0"
    using z unfolding h1 by (simp_all add: stepped_def bump_def)
  have m1: "1 \<in> set (child (nodes h2 0))" using c by simp
  have inv1: "run_inv (row_env 2) [empty, empty] h1 0"
    unfolding h1 using inv2 m1 by (rule stepped_inv(1)) (use c in simp)
  have u1: "\<exists>c \<in> set (child (nodes h1 0)). visit (nodes h1 c) = 0" using c1 v1 by auto
  from iteration_first_unvisited[OF inv1 w' u1 it2]
  obtain r2 where hk: "hk = stepped h1 0 2 r2" using c1 v1 by auto
  have vk: "visit (nodes hk 1) = 1" "visit (nodes hk 2) = 1"
    using v1 unfolding hk by (simp_all add: stepped_def bump_def)
  have ck: "child (nodes hk 0) = [1, 2]" using sh c by (simp add: same_shape_def)
  show ?thesis using that[OF br c sl ck vk] .
qed

section \<open>The properties of the specification\<close>

text \<open>
  C3. (amended) Selection at a node: a node without children is the selection target. At
  a node with children, if some child has \<^verbatim>\<open>visit == 0\<close> the first such child in list order
  is returned, whatever the scores are; the loop has by then computed and compared the
  score of every visited child that precedes it, dividing twice by its \<^verbatim>\<open>visit\<close>. If all
  children are visited (the node itself visited, no negative win count) the descent
  continues into one of the children, until a node without children is reached. In
  every store that the loop of a move request passes to selection with all children
  visited, after \<open>k < 100\<close> iterations, each child has won none or all of its visits, and
  the child chosen is a \<open>b\<close> whose score \<open>win/visit + sqrt(2 * ln(parent visit) / visit)\<close> is
  strictly greater than that of every earlier child and at least that of every later
  one: the maximum, ties going to the earliest position; it is the node returned.
  Scores are compared as real numbers.
\<close>

theorem selection_policy:
  "(child (nodes h r) = [] \<longrightarrow> selection h (Some r) = Some (Inr r)) \<and>
   (child (nodes h r) \<noteq> [] \<and> (\<exists>c \<in> set (child (nodes h r)). visit (nodes h c) = 0) \<longrightarrow>
      selection h (Some r) =
        Some (Inr (hd (filter (\<lambda>c. visit (nodes h c) = 0) (child (nodes h r))))) \<and>
      selection_divisors h (Some r) =
        Some (concat (map (\<lambda>c. [visit (nodes h c), visit (nodes h c)])
                (takeWhile (\<lambda>c. visit (nodes h c) \<noteq> 0) (child (nodes h r)))))) \<and>
   (child (nodes h r) \<noteq> [] \<and> 1 \<le> visit (nodes h r) \<and>
      (\<forall>c \<in> set (child (nodes h r)). 1 \<le> visit (nodes h c) \<and> 0 \<le> win (nodes h c)) \<longrightarrow>
      (\<exists>b \<in> set (child (nodes h r)). selection h (Some r) = selection h (Some b))) \<and>
   (build_root E this state = (rt, this', h2) \<and> (who this = black \<or> who this = white) \<and>
      child (nodes h2 rt) \<noteq> [] \<and> k < 100 \<and>
      sim_loop E this' rt (int k) h2 = Some (Inr hk) \<and>
      (\<forall>c \<in> set (child (nodes hk rt)). visit (nodes hk c) \<noteq> 0) \<longrightarrow>
      (\<forall>c \<in> set (child (nodes hk rt)).
         win (nodes hk c) = 0 \<or> win (nodes hk c) = visit (nodes hk c)) \<and>
      (\<exists>pre b post. child (nodes hk rt) = pre @ b # post \<and>
          (\<forall>d \<in> set pre. spec_score hk rt d < spec_score hk rt b) \<and>
          (\<forall>d \<in> set post. spec_score hk rt d \<le> spec_score hk rt b) \<and>
          selection hk (Some rt) = Some (Inr b)))"
proof (intro conjI impI)
  assume "child (nodes h r) = []"
  then show "selection h (Some r) = Some (Inr r)" by (rule selection_leaf)
next
  assume a: "child (nodes h r) \<noteq> [] \<and> (\<exists>c \<in> set (child (nodes h r)). visit (nodes h c) = 0)"
  then have ne: "child (nodes h r) \<noteq> []"
    and u: "\<exists>c \<in> set (child (nodes h r)). visit (nodes h c) = 0" by simp_all
  show "selection h (Some r) =
        Some (Inr (hd (filter (\<lambda>c. visit (nodes h c) = 0) (child (nodes h r)))))"
    using scan_unvisited[OF u] selection_return[OF ne] by simp
  show "selection_divisors h (Some r) =
        Some (concat (map (\<lambda>c. [visit (nodes h c), visit (nodes h c)])
                (takeWhile (\<lambda>c. visit (nodes h c) \<noteq> 0) (child (nodes h r)))))"
    using selection_divisors_unvisited[OF ne u] by (simp only: scan_divisors_takeWhile)
next
  assume a: "child (nodes h r) \<noteq> [] \<and> 1 \<le> visit (nodes h r) \<and>
      (\<forall>c \<in> set (child (nodes h r)). 1 \<le> visit (nodes h c) \<and> 0 \<le> win (nodes h c))"
  then have ne: "child (nodes h r) \<noteq> []" and rv: "1 \<le> visit (nodes h r)"
    and cv: "\<forall>c \<in> set (child (nodes h r)). 1 \<le> visit (nodes h c) \<and> 0 \<le> win (nodes h c)"
    by simp_all
  from selection_visited[OF ne rv cv]
  obtain pre b post where d: "child (nodes h r) = pre @ b # post"
    "selection h (Some r) = selection h (Some b)" by blast
  have "b \<in> set (child (nodes h r))" unfolding d(1) by simp
  then show "\<exists>b \<in> set (child (nodes h r)). selection h (Some r) = selection h (Some b)"
    using d(2) by blast
next
  assume a: "build_root E this state = (rt, this', h2) \<and> (who this = black \<or> who this = white) \<and>
      child (nodes h2 rt) \<noteq> [] \<and> k < 100 \<and>
      sim_loop E this' rt (int k) h2 = Some (Inr hk) \<and>
      (\<forall>c \<in> set (child (nodes hk rt)). visit (nodes hk c) \<noteq> 0)"
  then have br: "build_root E this state = (rt, this', h2)"
    and w: "who this = black \<or> who this = white" and ne: "child (nodes h2 rt) \<noteq> []"
    and sl: "sim_loop E this' rt (int k) h2 = Some (Inr hk)"
    and av: "\<forall>c \<in> set (child (nodes hk rt)). visit (nodes hk c) \<noteq> 0" by simp_all
  show "\<forall>c \<in> set (child (nodes hk rt)).
         win (nodes hk c) = 0 \<or> win (nodes hk c) = visit (nodes hk c)"
    using br ne w sl by (rule run_wins)
  note b = build_root_run[OF br ne]
  have w': "who this' = black \<or> who this' = white" using w b(2) by simp
  note sf = sim_loop_flat_inv[OF w' b(4) sl]
  have g: "grown E state hk rt" and kk: "counts_ok hk" and t: "tallied hk rt"
    and nek: "child (nodes hk rt) \<noteq> []" using sf(1) by (simp_all add: run_inv_def)
  have nn: "\<forall>c \<in> set (child (nodes hk rt)). 0 \<le> visit (nodes hk c)"
    using kk unfolding counts_ok_def by (meson order_trans)
  have cv1: "\<forall>c \<in> set (child (nodes hk rt)). 1 \<le> visit (nodes hk c)" using nn av by force
  have cv: "\<forall>c \<in> set (child (nodes hk rt)). 1 \<le> visit (nodes hk c) \<and> 0 \<le> win (nodes hk c)"
    using cv1 kk by (simp add: counts_ok_def)
  have hdm: "hd (child (nodes hk rt)) \<in> set (child (nodes hk rt))" using nek by simp
  have "visit (nodes hk (hd (child (nodes hk rt)))) \<le>
      sum_list (map (\<lambda>c. visit (nodes hk c)) (child (nodes hk rt)))"
    using nn hdm by (rule member_le_sum_list_int)
  moreover have "1 \<le> visit (nodes hk (hd (child (nodes hk rt))))" using cv1 hdm by blast
  ultimately have rv: "1 \<le> visit (nodes hk rt)" using t by (simp add: tallied_def)
  from selection_visited[OF nek rv cv]
  obtain pre b post where d: "child (nodes hk rt) = pre @ b # post"
    "\<forall>d \<in> set pre. spec_score hk rt d < spec_score hk rt b"
    "\<forall>d \<in> set post. spec_score hk rt d \<le> spec_score hk rt b"
    "selection hk (Some rt) = selection hk (Some b)" by blast
  have "b \<in> set (child (nodes hk rt))" unfolding d(1) by simp
  then have "child (nodes hk b) = []" using g by (simp add: grown_def)
  then have "selection hk (Some rt) = Some (Inr b)" using d(4) selection_leaf by simp
  then show "\<exists>pre b post. child (nodes hk rt) = pre @ b # post \<and>
          (\<forall>d \<in> set pre. spec_score hk rt d < spec_score hk rt b) \<and>
          (\<forall>d \<in> set post. spec_score hk rt d \<le> spec_score hk rt b) \<and>
          selection hk (Some rt) = Some (Inr b)"
    using d(1,2,3) by blast
qed


theorem selection_policy_witness:
  "selection (example_tree 1 0) (Some 1) = Some (Inr 1) \<and>
   (selection (example_tree 3 0) (Some 0) = Some (Inr 2) \<and>
    selection_divisors (example_tree 3 0) (Some 0) = Some [3, 3]) \<and>
   (\<exists>b \<in> set (child (nodes (example_tree 1 1) 0)).
      selection (example_tree 1 1) (Some 0) = selection (example_tree 1 1) (Some b)) \<and>
   (\<exists>this' h2 hk pre b post.
      build_root (row_env 2) (row_player 2) [empty, empty] = (0, this', h2) \<and>
      sim_loop (row_env 2) this' 0 (int 2) h2 = Some (Inr hk) \<and>
      (\<forall>c \<in> set (child (nodes hk 0)).
         win (nodes hk c) = 0 \<or> win (nodes hk c) = visit (nodes hk c)) \<and>
      child (nodes hk 0) = pre @ b # post \<and>
      (\<forall>d \<in> set pre. spec_score hk 0 d < spec_score hk 0 b) \<and>
      (\<forall>d \<in> set post. spec_score hk 0 d \<le> spec_score hk 0 b) \<and>
      selection hk (Some 0) = Some (Inr b))"
proof (intro conjI)
  show "selection (example_tree 1 0) (Some 1) = Some (Inr 1)"
    using selection_policy[where h = "example_tree 1 0" and r = 1, THEN conjunct1]
    by (simp add: example_tree_def)
  have h2: "child (nodes (example_tree 3 0) 0) \<noteq> [] \<and>
      (\<exists>c \<in> set (child (nodes (example_tree 3 0) 0)). visit (nodes (example_tree 3 0) c) = 0)"
    by (simp add: example_tree_def)
  note B = selection_policy[where h = "example_tree 3 0" and r = 0,
      THEN conjunct2, THEN conjunct1, rule_format, OF h2]
  show "selection (example_tree 3 0) (Some 0) = Some (Inr 2)"
    using B[THEN conjunct1] by (simp add: example_tree_def)
  show "selection_divisors (example_tree 3 0) (Some 0) = Some [3, 3]"
    using B[THEN conjunct2] by (simp add: example_tree_def)
  have h3: "child (nodes (example_tree 1 1) 0) \<noteq> [] \<and> 1 \<le> visit (nodes (example_tree 1 1) 0) \<and>
      (\<forall>c \<in> set (child (nodes (example_tree 1 1) 0)).
         1 \<le> visit (nodes (example_tree 1 1) c) \<and> 0 \<le> win (nodes (example_tree 1 1) c))"
    by (simp add: example_tree_def)
  show "\<exists>b \<in> set (child (nodes (example_tree 1 1) 0)).
      selection (example_tree 1 1) (Some 0) = selection (example_tree 1 1) (Some b)"
    by (rule selection_policy[where h = "example_tree 1 1" and r = 0,
      THEN conjunct2, THEN conjunct2, THEN conjunct1, rule_format, OF h3])
  obtain this' h2 hk where br: "build_root (row_env 2) (row_player 2) [empty, empty] = (0, this', h2)"
    and c: "child (nodes h2 0) = [1, 2]"
    and sl: "sim_loop (row_env 2) this' 0 (int 2) h2 = Some (Inr hk)"
    and ck: "child (nodes hk 0) = [1, 2]"
    and v: "visit (nodes hk 1) = 1" "visit (nodes hk 2) = 1"
    by (rule row_two_iterations)
  have av: "\<forall>c \<in> set (child (nodes hk 0)). visit (nodes hk c) \<noteq> 0" unfolding ck using v by simp
  have ne: "child (nodes h2 0) \<noteq> []" using c by simp
  have h4: "build_root (row_env 2) (row_player 2) [empty, empty] = (0, this', h2) \<and>
      (who (row_player 2) = black \<or> who (row_player 2) = white) \<and>
      child (nodes h2 0) \<noteq> [] \<and> (2::nat) < 100 \<and>
      sim_loop (row_env 2) this' 0 (int 2) h2 = Some (Inr hk) \<and>
      (\<forall>c \<in> set (child (nodes hk 0)). visit (nodes hk c) \<noteq> 0)"
    using br row_who ne sl av by simp
  note D = selection_policy[where E = "row_env 2" and this = "row_player 2"
      and state = "[empty, empty]" and rt = 0 and this' = this' and ?h2.0 = h2 and k = 2
      and hk = hk, THEN conjunct2, THEN conjunct2, THEN conjunct2, rule_format, OF h4]
  have D1: "\<forall>c \<in> set (child (nodes hk 0)).
         win (nodes hk c) = 0 \<or> win (nodes hk c) = visit (nodes hk c)"
    using D by (elim conjE)
  have "\<exists>pre b post. child (nodes hk 0) = pre @ b # post \<and>
          (\<forall>d \<in> set pre. spec_score hk 0 d < spec_score hk 0 b) \<and>
          (\<forall>d \<in> set post. spec_score hk 0 d \<le> spec_score hk 0 b) \<and>
          selection hk (Some 0) = Some (Inr b)"
    using D by (elim conjE)
  then obtain pre b post where d: "child (nodes hk 0) = pre @ b # post"
    "\<forall>d \<in> set pre. spec_score hk 0 d < spec_score hk 0 b"
    "\<forall>d \<in> set post. spec_score hk 0 d \<le> spec_score hk 0 b"
    "selection hk (Some 0) = Some (Inr b)" by blast
  show "\<exists>this' h2 hk pre b post.
      build_root (row_env 2) (row_player 2) [empty, empty] = (0, this', h2) \<and>
      sim_loop (row_env 2) this' 0 (int 2) h2 = Some (Inr hk) \<and>
      (\<forall>c \<in> set (child (nodes hk 0)).
         win (nodes hk c) = 0 \<or> win (nodes hk c) = visit (nodes hk c)) \<and>
      child (nodes hk 0) = pre @ b # post \<and>
      (\<forall>d \<in> set pre. spec_score hk 0 d < spec_score hk 0 b) \<and>
      (\<forall>d \<in> set post. spec_score hk 0 d \<le> spec_score hk 0 b) \<and>
      selection hk (Some 0) = Some (Inr b)"
    by (rule exI[of _ this'], rule exI[of _ h2], rule exI[of _ hk], rule exI[of _ pre],
        rule exI[of _ b], rule exI[of _ post]) (intro conjI br sl D1 d)
qed

text \<open>
  The statement of the specification, that an unvisited child is selected before any
  score comparison, fails on the tree whose first child has one visit and whose second
  has none: selection returns the second child, and has by then divided twice by the
  visit count of the first, computing its score for the comparison of line 139.
\<close>

theorem selection_immediately_counterexample:
  "selection (example_tree 1 0) (Some 0) = Some (Inr 2) \<and>
   selection_divisors (example_tree 1 0) (Some 0) = Some [1, 1]"
proof -
  have ne: "child (nodes (example_tree 1 0) 0) \<noteq> []" by (simp add: example_tree_def)
  have u: "\<exists>c \<in> set (child (nodes (example_tree 1 0) 0)). visit (nodes (example_tree 1 0) c) = 0"
    by (simp add: example_tree_def)
  have f: "hd (filter (\<lambda>c. visit (nodes (example_tree 1 0) c) = 0)
              (child (nodes (example_tree 1 0) 0))) = 2"
    by (simp add: example_tree_def)
  have sc: "scan (example_tree 1 0) 0 (child (nodes (example_tree 1 0) 0)) None (Fin (- 99999)) =
      Return 2"
    using scan_unvisited[OF u, of 0 None "Fin (- 99999)"] unfolding f .
  have "selection (example_tree 1 0) (Some 0) = Some (Inr 2)"
    using ne sc by (rule selection_return)
  moreover have "scan_divisors (example_tree 1 0) (child (nodes (example_tree 1 0) 0)) = [1, 1]"
    by (simp add: example_tree_def)
  then have "selection_divisors (example_tree 1 0) (Some 0) = Some [1, 1]"
    using selection_divisors_unvisited[OF ne u] by simp
  ultimately show ?thesis by simp
qed

text \<open>
  C4. A simulation from a node: the two rollout players are one of each colour, and the
  moves made are legal placements in strict alternation, the opponent's colour first.
  The rollout ends at the first board on which the side to move has no legal placement,
  and the outcome is a win exactly when the number of moves made is even, that is, when
  the side that could not move is the opponent. No error is raised, and on a board with
  a measure that every legal placement decreases the simulation returns.
\<close>

theorem oneSim_alternation:
  assumes "shuffle_ok E" and "who this = me"
    and "(me = black \<and> opp = white) \<or> (me = white \<and> opp = black)"
  shows "(\<forall>e. oneSim E this h node \<noteq> Some (Inl e)) \<and>
     (oneSim E this h node = Some (Inr r) \<longrightarrow>
        (\<exists>is s'. (\<forall>i \<in> set is. i < cells E) \<and>
           plays E opp me is (bd (nodes h node)) = Some s' \<and>
           no_move E (if even (length is) then opp else me) s' \<and>
           r = even (length is))) \<and>
     (decreasing E m \<longrightarrow> (\<exists>r'. oneSim E this h node = Some (Inr r')))"
proof -
  obtain p q where pq: "sim_players E me = Inr (p, q)" "player_ok E me p" "player_ok E opp q"
    using sim_players_ok[OF assms(3), of E] by blast
  have run: "oneSim E this h node = map_option Inr (rollout E p q False (bd (nodes h node)))"
    using oneSim_runs pq(1) assms(2) by metis
  have a: "\<forall>e. oneSim E this h node \<noteq> Some (Inl e)" unfolding run by auto
  have b: "\<exists>is s'. (\<forall>i \<in> set is. i < cells E) \<and>
           plays E opp me is (bd (nodes h node)) = Some s' \<and>
           no_move E (if even (length is) then opp else me) s' \<and>
           r = even (length is)" if "oneSim E this h node = Some (Inr r)"
  proof -
    from that have "rollout E p q False (bd (nodes h node)) = Some r" unfolding run by auto
    from rollout_plays_aux[OF this, rule_format, OF assms(1) pq(2,3)]
    obtain js s' where js: "\<forall>i \<in> set js. i < cells E"
      "plays E opp me js (bd (nodes h node)) = Some s'"
      "no_move E (if False = even (length js) then me else opp) s'"
      "r = (False \<noteq> even (length js))" by auto
    show ?thesis
      by (rule exI[of _ js], rule exI[of _ s']) (use js in auto)
  qed
  have c: "\<exists>r'. oneSim E this h node = Some (Inr r')" if dm: "decreasing E m"
  proof -
    obtain r' where "rollout E p q False (bd (nodes h node)) = Some r'"
      using rollout_terminates[OF dm] by blast
    then show ?thesis unfolding run by simp
  qed
  from a b c show ?thesis by blast
qed

theorem oneSim_alternation_witness:
  "oneSim (row_env 2) (row_player 2) (example_tree 0 0) 1 = Some (Inr False) \<and>
   (\<exists>is s'. (\<forall>i \<in> set is. i < cells (row_env 2)) \<and>
      plays (row_env 2) white black is (bd (nodes (example_tree 0 0) 1)) = Some s' \<and>
      no_move (row_env 2) (if even (length is) then white else black) s' \<and>
      False = even (length is))"
proof -
  have r: "oneSim (row_env 2) (row_player 2) (example_tree 0 0) 1 = Some (Inr False)"
    by code_simp
  have w: "who (row_player 2) = black" by (simp add: row_player_def)
  show ?thesis
    using oneSim_alternation[OF shuffle_ok_row w, where opp = white and h = "example_tree 0 0"
          and node = 1 and r = False and m = empties] r
      decreasing_row[of 2]
    by simp
qed

text \<open>
  C10. The outcome of a simulation depends on the player only through its colour: two
  players of the same colour, whatever their seed, engine or vector, get the same outcome
  on equal boards, in any store. The two rollout players have no \<^verbatim>\<open>seed\<close> key and
  start from the default engine.
\<close>

theorem oneSim_seed_independent:
  "(who this1 = who this2 \<and> bd (nodes h1 n1) = bd (nodes h2 n2) \<longrightarrow>
      oneSim E this1 h1 n1 = oneSim E this2 h2 n2) \<and>
   (sim_players E w = Inr (myself, opponent) \<longrightarrow>
      meta myself ''seed'' = None \<and> meta opponent ''seed'' = None \<and>
      engine myself = default_engine E \<and> engine opponent = default_engine E)"
proof (intro conjI impI)
  assume "who this1 = who this2 \<and> bd (nodes h1 n1) = bd (nodes h2 n2)"
  then show "oneSim E this1 h1 n1 = oneSim E this2 h2 n2"
    by (simp add: oneSim_def split: sum.split prod.split)
next
  assume a: "sim_players E w = Inr (myself, opponent)"
  then have "w = black \<or> w = white" by (auto simp: sim_players_def split: if_splits)
  then have "meta myself ''seed'' = None \<and> meta opponent ''seed'' = None \<and>
      engine myself = default_engine E \<and> engine opponent = default_engine E"
    using a by (auto simp: sim_players_black sim_players_white agent_black_seed agent_white_seed)
  then show "meta myself ''seed'' = None" "meta opponent ''seed'' = None"
    "engine myself = default_engine E" "engine opponent = default_engine E" by simp_all
qed

theorem oneSim_seed_independent_witness:
  "oneSim (row_env 2) (row_player 2) (example_tree 0 0) 1 =
     oneSim (row_env 2) (seeded_row_player 2) (example_tree 5 3) 1 \<and>
   engine (row_player 2) \<noteq> engine (seeded_row_player 2) \<and>
   meta (fst (projr (sim_players (row_env 2) black))) ''seed'' = None \<and>
   meta (snd (projr (sim_players (row_env 2) black))) ''seed'' = None \<and>
   engine (fst (projr (sim_players (row_env 2) black))) = default_engine (row_env 2) \<and>
   engine (snd (projr (sim_players (row_env 2) black))) = default_engine (row_env 2)"
  using oneSim_seed_independent[of "row_player 2" "seeded_row_player 2" "example_tree 0 0" 1
      "example_tree 5 3" 1 "row_env 2" black "fst (projr (sim_players (row_env 2) black))"
      "snd (projr (sim_players (row_env 2) black))"]
  by (simp add: row_player_def seeded_row_player_def example_tree_def sim_players_black)

text \<open>
  C8. A board on which the searching player has no legal placement: the expansion of the
  root adds no child, and \<^verbatim>\<open>take_action\<close> returns the default action at once, without error
  and without running a simulation. The store then holds the root alone.
\<close>

theorem take_action_no_legal_move:
  assumes "shuffle_ok E" and "player_ok E w this" and "no_move E w state"
  shows "\<exists>this' h. take_action E this state = Some (Inr (noaction, this', h)) \<and>
           child (nodes h 0) = [] \<and> top h = 1"
proof -
  obtain sp e where sh: "shuffle E (space this) (engine this) = (sp, e)"
    by (cases "shuffle E (space this) (engine this)")
  from build_root_props[OF sh, of state]
  obtain h2 where h2: "build_root E this state = (0, this\<lparr>space := sp, engine := e\<rparr>, h2)"
    "top h2 = Suc (length (filter (\<lambda>mv. apply_action E mv state \<noteq> None) sp))" by blast
  have f: "filter (\<lambda>mv. apply_action E mv state \<noteq> None) sp = []"
    using legal_filter[OF assms(1,2) sh] assms(3) by simp
  have c: "child (nodes h2 0) = []"
    using build_root_children[OF assms(1,2) h2(1)] assms(3) by simp
  have "take_action E this state = Some (Inr (noaction, this\<lparr>space := sp, engine := e\<rparr>, h2))"
    unfolding take_action_def Simulation_unfold[OF h2(1)] using c by simp
  moreover have "top h2 = 1" using h2(2) f by simp
  ultimately show ?thesis using c by blast
qed

theorem take_action_no_legal_move_witness:
  "\<exists>this' h. take_action (row_env 2) (row_player 2) [black, white] = Some (Inr (noaction, this', h)) \<and>
           child (nodes h 0) = [] \<and> top h = 1"
proof -
  have "no_move (row_env 2) black [black, white]"
    by (simp add: no_move_def row_env_def less_Suc_eq numeral_2_eq_2)
  then show ?thesis
    using take_action_no_legal_move[OF shuffle_ok_row row_player_ok, of 2 "[black, white]"] by simp
qed

text \<open>
  C2. A board on which the searching player has a legal placement, and the budget of 100
  simulations: \<^verbatim>\<open>take_action\<close> returns, and the action is the \<^verbatim>\<open>move\<close> of a child \<open>b\<close> of the
  root that has been visited, whose win rate is strictly greater than that of every
  visited child before it and at least that of every visited child after it (unvisited
  children are ignored). The action is legal on the input board. Win rates are compared
  as real numbers; with at most 100 visits the float quotients order the same way.
\<close>

theorem take_action_best_child:
  assumes "shuffle_ok E" and "player_ok E w this" and "decreasing E m"
    and "sim_counts this = 100" and "\<not> no_move E w state"
  shows "\<exists>a this' h pre b post.
      take_action E this state = Some (Inr (a, this', h)) \<and>
      child (nodes h 0) = pre @ b # post \<and> a = move (nodes h b) \<and>
      0 < visit (nodes h b) \<and>
      (\<forall>d \<in> set pre. 0 < visit (nodes h d) \<longrightarrow> spec_rate h d < spec_rate h b) \<and>
      (\<forall>d \<in> set post. 0 < visit (nodes h d) \<longrightarrow> spec_rate h d \<le> spec_rate h b) \<and>
      apply_action E a state \<noteq> None"
proof -
  obtain rt this' h2 where br: "build_root E this state = (rt, this', h2)"
    by (cases "build_root E this state")
  have ne: "child (nodes h2 rt) \<noteq> []"
    using build_root_children[OF assms(1,2) br] assms(5) by simp
  have w: "who this = black \<or> who this = white"
    using assms(2) by (cases "who this") (auto simp: player_ok_def)
  have sc: "sim_counts this = int 100" using assms(4) by simp
  from Simulation_flat[OF br ne w assms(3) sc]
  obtain h3 pre b post where r: "Simulation E this state = Some (Inr (move (nodes h3 b), this', h3))"
    "run_inv E state h3 rt" "child (nodes h3 rt) = pre @ b # post" "0 < visit (nodes h3 b)"
      "\<forall>d \<in> set pre. 0 < visit (nodes h3 d) \<longrightarrow> spec_rate h3 d < spec_rate h3 b"
      "\<forall>d \<in> set post. 0 < visit (nodes h3 d) \<longrightarrow> spec_rate h3 d \<le> spec_rate h3 b"
    by auto
  have rt: "rt = 0" using build_root_run(1)[OF br ne] .
  have "b \<in> set (child (nodes h3 rt))" unfolding r(3) by simp
  then have "apply_action E (move (nodes h3 b)) state \<noteq> None"
    using r(2) by (auto simp: run_inv_def grown_def)
  then show ?thesis using r rt unfolding take_action_def by blast
qed

theorem take_action_best_child_witness:
  "\<exists>a this' h pre b post.
      take_action (row_env 2) (row_player 2) [empty, empty] = Some (Inr (a, this', h)) \<and>
      child (nodes h 0) = pre @ b # post \<and> a = move (nodes h b) \<and>
      0 < visit (nodes h b) \<and>
      (\<forall>d \<in> set pre. 0 < visit (nodes h d) \<longrightarrow> spec_rate h d < spec_rate h b) \<and>
      (\<forall>d \<in> set post. 0 < visit (nodes h d) \<longrightarrow> spec_rate h d \<le> spec_rate h b) \<and>
      apply_action (row_env 2) a [empty, empty] \<noteq> None"
proof -
  have "\<not> no_move (row_env 2) black [empty, empty]"
    by (simp add: no_move_def row_env_def) (rule exI[of _ 0], simp)
  moreover have "sim_counts (row_player 2) = 100" by (simp add: row_player_def)
  ultimately show ?thesis
    using take_action_best_child[OF shuffle_ok_row row_player_ok decreasing_row, of 2 "[empty, empty]"]
    by simp
qed

text \<open>
  C5. Backpropagation from a node follows the \<^verbatim>\<open>parent\<close> links up to and including the
  node without parent: it returns, every node on this walk gets \<^verbatim>\<open>visit\<close> plus one and
  \<^verbatim>\<open>win\<close> plus the outcome, and no other node changes. An iteration backpropagates 1 for a
  win and 0 otherwise, from the node that selection returned. After \<open>K\<close> iterations from
  a freshly expanded root with children, the \<^verbatim>\<open>visit\<close> of the root is \<open>K\<close>, and on a board
  with a decreasing measure the \<open>K\<close> iterations do complete.
\<close>

theorem backPropagation_walk:
  "(chain h (Some p) ps \<longrightarrow>
      (\<exists>h'. backPropagation h (Some p) w = Some h' \<and>
         hd ps = p \<and> parent (nodes h (last ps)) = None \<and> top h' = top h \<and>
         (\<forall>x. nodes h' x =
            (if x \<in> set ps
             then (nodes h x)\<lparr>visit := visit (nodes h x) + 1, win := win (nodes h x) + w\<rparr>
             else nodes h x)))) \<and>
   (iteration E this rt h = Some (Inr h1) \<longrightarrow>
      (\<exists>c r. selection h (Some rt) = Some (Inr c) \<and> oneSim E this h c = Some (Inr r) \<and>
         backPropagation h (Some c) (if r then 1 else 0) = Some h1)) \<and>
   (build_root E this state = (rt, this', h2) \<and> child (nodes h2 rt) \<noteq> [] \<and>
      (who this = black \<or> who this = white) \<longrightarrow>
      (\<forall>h3. sim_loop E this' rt (int K) h2 = Some (Inr h3) \<longrightarrow> visit (nodes h3 rt) = int K) \<and>
      (decreasing E m \<longrightarrow> (\<exists>h3. sim_loop E this' rt (int K) h2 = Some (Inr h3))))"
proof (intro conjI impI)
  assume ch: "chain h (Some p) ps"
  have ne: "ps \<noteq> []" using ch by (cases ps) auto
  have d: "distinct ps" using ch by (rule chain_distinct)
  let ?h' = "fold (\<lambda>c. upd c (bump w)) ps h"
  have 1: "backPropagation h (Some p) w = Some ?h'"
    using ch by (rule backPropagation_chain)
  have 2: "hd ps = p" using ch by (cases ps) auto
  have 3: "parent (nodes h (last ps)) = None" using ch ne by (rule chain_last)
  have 4: "top ?h' = top h" by (rule top_fold_upd)
  have 5: "nodes ?h' x =
            (if x \<in> set ps
             then (nodes h x)\<lparr>visit := visit (nodes h x) + 1, win := win (nodes h x) + w\<rparr>
             else nodes h x)" for x
    unfolding nodes_fold_upd[OF d] by (simp add: bump_def)
  show "\<exists>h'. backPropagation h (Some p) w = Some h' \<and>
         hd ps = p \<and> parent (nodes h (last ps)) = None \<and> top h' = top h \<and>
         (\<forall>x. nodes h' x =
            (if x \<in> set ps
             then (nodes h x)\<lparr>visit := visit (nodes h x) + 1, win := win (nodes h x) + w\<rparr>
             else nodes h x))"
    by (rule exI[of _ ?h']) (intro conjI allI 1 2 3 4 5)
next
  assume "iteration E this rt h = Some (Inr h1)"
  then show "\<exists>c r. selection h (Some rt) = Some (Inr c) \<and> oneSim E this h c = Some (Inr r) \<and>
         backPropagation h (Some c) (if r then 1 else 0) = Some h1"
    by (rule iteration_parts)
next
  assume a: "build_root E this state = (rt, this', h2) \<and> child (nodes h2 rt) \<noteq> [] \<and>
      (who this = black \<or> who this = white)"
  then have br: "build_root E this state = (rt, this', h2)" and ne: "child (nodes h2 rt) \<noteq> []"
    and w: "who this = black \<or> who this = white" by simp_all
  note b = build_root_run[OF br ne]
  have w': "who this' = black \<or> who this' = white" using w b(2) by simp
  note sl = sim_loop_flat[OF w' b(4), of K m]
  have s2: "\<forall>h'. sim_loop E this' rt (int K) h2 = Some (Inr h') \<longrightarrow>
        run_inv E state h' rt \<and> same_shape h2 h' \<and>
        visit (nodes h' rt) = visit (nodes h2 rt) + int K"
    using sl by (elim conjE)
  have s3: "decreasing E m \<longrightarrow> (\<exists>h'. sim_loop E this' rt (int K) h2 = Some (Inr h'))"
    using sl by (elim conjE)
  show "\<forall>h3. sim_loop E this' rt (int K) h2 = Some (Inr h3) \<longrightarrow> visit (nodes h3 rt) = int K"
  proof (intro allI impI)
    fix h3 assume "sim_loop E this' rt (int K) h2 = Some (Inr h3)"
    then have "visit (nodes h3 rt) = visit (nodes h2 rt) + int K" using s2 by blast
    then show "visit (nodes h3 rt) = int K" using b(5) by simp
  qed
  show "\<exists>h3. sim_loop E this' rt (int K) h2 = Some (Inr h3)" if dm: "decreasing E m"
    using s3 dm by (rule mp)
qed

theorem backPropagation_walk_witness:
  "(\<exists>h'. backPropagation (example_tree 1 0) (Some 1) 1 = Some h' \<and>
      visit (nodes h' 1) = 2 \<and> win (nodes h' 1) = 1 \<and>
      visit (nodes h' 0) = 2 \<and> win (nodes h' 0) = 1 \<and>
      visit (nodes h' 2) = 0 \<and> win (nodes h' 2) = 0) \<and>
   (\<exists>rt this' h2 h1 c r h3.
      build_root (row_env 2) (row_player 2) [empty, empty] = (rt, this', h2) \<and>
      iteration (row_env 2) this' rt h2 = Some (Inr h1) \<and>
      selection h2 (Some rt) = Some (Inr c) \<and> oneSim (row_env 2) this' h2 c = Some (Inr r) \<and>
      backPropagation h2 (Some c) (if r then 1 else 0) = Some h1 \<and>
      sim_loop (row_env 2) this' rt (int 100) h2 = Some (Inr h3) \<and> visit (nodes h3 rt) = 100)"
proof (intro conjI)
  have ch: "chain (example_tree 1 0) (Some 1) [1, 0]" by (simp add: example_tree_def)
  from backPropagation_walk[where h = "example_tree 1 0" and p = 1 and ps = "[1, 0]" and w = 1] ch
  obtain h' where h': "backPropagation (example_tree 1 0) (Some 1) 1 = Some h'"
    "\<forall>x. nodes h' x =
            (if x \<in> set [1, 0]
             then (nodes (example_tree 1 0) x)\<lparr>visit := visit (nodes (example_tree 1 0) x) + 1,
                    win := win (nodes (example_tree 1 0) x) + 1\<rparr>
             else nodes (example_tree 1 0) x)" by blast
  have "visit (nodes h' 1) = 2 \<and> win (nodes h' 1) = 1 \<and>
      visit (nodes h' 0) = 2 \<and> win (nodes h' 0) = 1 \<and>
      visit (nodes h' 2) = 0 \<and> win (nodes h' 2) = 0"
    using h'(2) by (simp add: example_tree_def)
  then show "\<exists>h'. backPropagation (example_tree 1 0) (Some 1) 1 = Some h' \<and>
      visit (nodes h' 1) = 2 \<and> win (nodes h' 1) = 1 \<and>
      visit (nodes h' 0) = 2 \<and> win (nodes h' 0) = 1 \<and>
      visit (nodes h' 2) = 0 \<and> win (nodes h' 2) = 0" using h'(1) by blast
next
  obtain this' h2 where br: "build_root (row_env 2) (row_player 2) [empty, empty] = (0, this', h2)"
    and c: "child (nodes h2 0) = [1, 2]" by (rule row_build)
  have ne: "child (nodes h2 0) \<noteq> []" using c by simp
  have hyp: "build_root (row_env 2) (row_player 2) [empty, empty] = (0, this', h2) \<and>
      child (nodes h2 0) \<noteq> [] \<and> (who (row_player 2) = black \<or> who (row_player 2) = white)"
    using br ne row_who by (intro conjI)
  note T = backPropagation_walk[where E = "row_env 2" and this = "row_player 2"
      and state = "[empty, empty]" and rt = 0 and this' = this' and ?h2.0 = h2
      and K = 100 and m = empties, THEN conjunct2, THEN conjunct2, rule_format, OF hyp]
  have "\<exists>h3. sim_loop (row_env 2) this' 0 (int 100) h2 = Some (Inr h3)"
    using T decreasing_row[of 2] by (elim conjE) (rule mp)
  then obtain h3 where h3: "sim_loop (row_env 2) this' 0 (int 100) h2 = Some (Inr h3)" ..
  have v3: "visit (nodes h3 0) = int 100" using T h3 by (elim conjE) blast
  have "sim_loop (row_env 2) this' 0 (int (Suc 99)) h2 = Some (Inr h3)" using h3 by simp
  then obtain h1 where h1: "iteration (row_env 2) this' 0 h2 = Some (Inr h1)"
    unfolding sim_loop_Suc by (auto split: option.splits sum.splits)
  note T1 = backPropagation_walk[where E = "row_env 2" and this = this' and rt = 0 and h = h2
      and ?h1.0 = h1, THEN conjunct2, THEN conjunct1, rule_format, OF h1]
  from T1
  obtain c r where "selection h2 (Some 0) = Some (Inr c)"
    "oneSim (row_env 2) this' h2 c = Some (Inr r)"
    "backPropagation h2 (Some c) (if r then 1 else 0) = Some h1" by blast
  then show "\<exists>rt this' h2 h1 c r h3.
      build_root (row_env 2) (row_player 2) [empty, empty] = (rt, this', h2) \<and>
      iteration (row_env 2) this' rt h2 = Some (Inr h1) \<and>
      selection h2 (Some rt) = Some (Inr c) \<and> oneSim (row_env 2) this' h2 c = Some (Inr r) \<and>
      backPropagation h2 (Some c) (if r then 1 else 0) = Some h1 \<and>
      sim_loop (row_env 2) this' rt (int 100) h2 = Some (Inr h3) \<and> visit (nodes h3 rt) = 100"
    using br h1 h3 v3 by auto
qed

text \<open>
  C6. Every node keeps \<open>0 \<le> win \<le> visit\<close>. A node is created with both counts zero. The
  bound holds in the store between \<^verbatim>\<open>current->visit++\<close> and \<^verbatim>\<open>current->win += win\<close>, after
  every backpropagation of an outcome 0 or 1, after the expansion of the root and after
  any number of iterations of the loop, and in the store that the move request leaves.
\<close>

theorem win_le_visit:
  "visit (Node_init E) = 0 \<and> win (Node_init E) = 0 \<and>
   (counts_ok h \<longrightarrow> counts_ok (upd c (\<lambda>n. n\<lparr>visit := visit n + 1\<rparr>) h)) \<and>
   (counts_ok h \<and> 0 \<le> w \<and> w \<le> 1 \<and> backPropagation h p w = Some h' \<longrightarrow> counts_ok h') \<and>
   (build_root E this state = (rt, this', h2) \<and>
      sim_loop E this' rt (int k) h2 = Some (Inr hk) \<longrightarrow>
      (\<forall>q. 0 \<le> win (nodes hk q) \<and> win (nodes hk q) \<le> visit (nodes hk q))) \<and>
   (final_store E this state = Some hf \<longrightarrow>
      (\<forall>q. 0 \<le> win (nodes hf q) \<and> win (nodes hf q) \<le> visit (nodes hf q)))"
proof (intro conjI impI)
  show "visit (Node_init E) = 0" "win (Node_init E) = 0" by (simp_all add: Node_init_def)
next
  assume k: "counts_ok h"
  have "\<And>q. win (nodes h q) \<le> visit (nodes h q)" using k by (simp add: counts_ok_def)
  then have "\<And>q. win (nodes h q) \<le> visit (nodes h q) + 1" by (simp add: add_increasing2)
  then show "counts_ok (upd c (\<lambda>n. n\<lparr>visit := visit n + 1\<rparr>) h)"
    using k by (simp add: counts_ok_def)
next
  assume "counts_ok h \<and> 0 \<le> w \<and> w \<le> 1 \<and> backPropagation h p w = Some h'"
  then show "counts_ok h'" using counts_ok_backPropagation[of h p w h'] by simp
next
  assume "build_root E this state = (rt, this', h2) \<and>
      sim_loop E this' rt (int k) h2 = Some (Inr hk)"
  then have br: "build_root E this state = (rt, this', h2)"
    and sl: "sim_loop E this' rt (int k) h2 = Some (Inr hk)" by simp_all
  have "counts_ok h2" using br by (rule build_root_counts_ok)
  then have "counts_ok hk" using sl by (rule sim_loop_counts_ok)
  then show "\<forall>q. 0 \<le> win (nodes hk q) \<and> win (nodes hk q) \<le> visit (nodes hk q)"
    by (simp add: counts_ok_def)
next
  assume "final_store E this state = Some hf"
  then have "counts_ok hf" by (rule final_store_counts_ok)
  then show "\<forall>q. 0 \<le> win (nodes hf q) \<and> win (nodes hf q) \<le> visit (nodes hf q)"
    by (simp add: counts_ok_def)
qed

theorem win_le_visit_witness:
  "counts_ok (upd 1 (\<lambda>n. n\<lparr>visit := visit n + 1\<rparr>) (example_tree 1 0)) \<and>
   (\<exists>h'. backPropagation (example_tree 1 0) (Some 1) 1 = Some h' \<and> counts_ok h') \<and>
   (\<exists>rt this' h2 hk. build_root (row_env 2) (row_player 2) [empty, empty] = (rt, this', h2) \<and>
      sim_loop (row_env 2) this' rt (int 37) h2 = Some (Inr hk) \<and>
      (\<forall>q. 0 \<le> win (nodes hk q) \<and> win (nodes hk q) \<le> visit (nodes hk q))) \<and>
   (\<exists>hf. final_store (row_env 2) (row_player 2) [empty, empty] = Some hf \<and>
      (\<forall>q. 0 \<le> win (nodes hf q) \<and> win (nodes hf q) \<le> visit (nodes hf q)))"
proof (intro conjI)
  have k: "counts_ok (example_tree 1 0)"
    by (simp add: counts_ok_def example_tree_def Node_init_def)
  note A = win_le_visit[where h = "example_tree 1 0" and c = 1,
      THEN conjunct2, THEN conjunct2, THEN conjunct1, rule_format, OF k]
  show "counts_ok (upd 1 (\<lambda>n. n\<lparr>visit := visit n + 1\<rparr>) (example_tree 1 0))" by (rule A)
  have ch: "chain (example_tree 1 0) (Some 1) [1, 0]" by (simp add: example_tree_def)
  let ?h' = "fold (\<lambda>c. upd c (bump 1)) [1, 0] (example_tree 1 0)"
  have bp: "backPropagation (example_tree 1 0) (Some 1) 1 = Some ?h'"
    using ch by (rule backPropagation_chain)
  have hyp: "counts_ok (example_tree 1 0) \<and> (0::int) \<le> 1 \<and> (1::int) \<le> 1 \<and>
      backPropagation (example_tree 1 0) (Some 1) 1 = Some ?h'"
    using k bp by simp
  note B = win_le_visit[where h = "example_tree 1 0" and p = "Some 1" and w = 1 and h' = ?h',
      THEN conjunct2, THEN conjunct2, THEN conjunct2, THEN conjunct1, rule_format, OF hyp]
  show "\<exists>h'. backPropagation (example_tree 1 0) (Some 1) 1 = Some h' \<and> counts_ok h'"
    by (rule exI[of _ ?h']) (intro conjI bp B)
  obtain this' h2 hk where br: "build_root (row_env 2) (row_player 2) [empty, empty] = (0, this', h2)"
    and sl: "sim_loop (row_env 2) this' 0 (int 37) h2 = Some (Inr hk)"
    by (rule row_run[of 37])
  have hyp2: "build_root (row_env 2) (row_player 2) [empty, empty] = (0, this', h2) \<and>
      sim_loop (row_env 2) this' 0 (int 37) h2 = Some (Inr hk)" using br sl by simp
  note C = win_le_visit[where E = "row_env 2" and this = "row_player 2" and state = "[empty, empty]"
      and rt = 0 and this' = this' and ?h2.0 = h2 and k = 37 and hk = hk,
      THEN conjunct2, THEN conjunct2, THEN conjunct2, THEN conjunct2, THEN conjunct1,
      rule_format, OF hyp2]
  show "\<exists>rt this' h2 hk. build_root (row_env 2) (row_player 2) [empty, empty] = (rt, this', h2) \<and>
      sim_loop (row_env 2) this' rt (int 37) h2 = Some (Inr hk) \<and>
      (\<forall>q. 0 \<le> win (nodes hk q) \<and> win (nodes hk q) \<le> visit (nodes hk q))"
    by (rule exI[of _ 0], rule exI[of _ this'], rule exI[of _ h2], rule exI[of _ hk])
       (intro conjI allI br sl C)
  obtain h3 where fs: "final_store (row_env 2) (row_player 2) [empty, empty] = Some h3"
    by (rule row_final)
  note D = win_le_visit[where E = "row_env 2" and this = "row_player 2" and state = "[empty, empty]"
      and hf = h3,
      THEN conjunct2, THEN conjunct2, THEN conjunct2, THEN conjunct2, THEN conjunct2,
      rule_format, OF fs]
  show "\<exists>hf. final_store (row_env 2) (row_player 2) [empty, empty] = Some hf \<and>
      (\<forall>q. 0 \<le> win (nodes hf q) \<and> win (nodes hf q) \<le> visit (nodes hf q))"
    by (rule exI[of _ h3]) (intro conjI allI fs D)
qed

text \<open>
  C7. In a move request whose root has children, in the store before any iteration and
  after any number of iterations: selection from the root returns its list of divisors,
  all strictly positive (a child's \<^verbatim>\<open>visit\<close> divides only after the test \<^verbatim>\<open>visit == 0\<close>
  failed, and counts are never negative); and once at least one iteration has run, as
  with the budget of 100, every divisor of the decision step is strictly positive, the
  \<^verbatim>\<open>visit\<close> of the first child read at line 210 included.
\<close>

theorem divisors_positive:
  assumes "build_root E this state = (rt, this', h2)" and "who this = black \<or> who this = white"
    and "child (nodes h2 rt) \<noteq> []" and "sim_loop E this' rt (int k) h2 = Some (Inr hk)"
  shows "(\<exists>ds. selection_divisors hk (Some rt) = Some ds \<and> (\<forall>d \<in> set ds. 0 < d)) \<and>
         (1 \<le> k \<longrightarrow> (\<forall>d \<in> set (decide_divisors hk rt). 0 < d))"
proof -
  note b = build_root_run[OF assms(1,3)]
  have w': "who this' = black \<or> who this' = white" using assms(2) b(2) by simp
  note sl = sim_loop_flat_inv[OF w' b(4) assms(4)]
  have inv: "run_inv E state hk rt" and v: "visit (nodes hk rt) = int k"
    using sl b(5) by simp_all
  have kk: "counts_ok hk" using inv by (simp add: run_inv_def)
  have nn: "\<forall>c \<in> set (child (nodes hk rt)). 0 \<le> visit (nodes hk c)"
    using kk unfolding counts_ok_def by (meson order_trans)
  have 1: "selection_divisors hk (Some rt) = Some (scan_divisors hk (child (nodes hk rt)))"
    using inv by (rule selection_divisors_flat)
  have 2: "\<forall>d \<in> set (scan_divisors hk (child (nodes hk rt))). 0 < d"
    using nn by (rule scan_divisors_pos)
  have 3: "\<forall>d \<in> set (decide_divisors hk rt). 0 < d" if "1 \<le> k"
  proof -
    have "1 \<le> visit (nodes hk rt)" using v that by simp
    then have f: "1 \<le> visit (nodes hk (hd (child (nodes hk rt))))"
      using run_inv_first_visited(1)[OF inv] by simp
    obtain c0 rest where cs: "child (nodes hk rt) = c0 # rest"
      using inv by (cases "child (nodes hk rt)") (auto simp: run_inv_def)
    have "0 < visit (nodes hk c0)" using f cs by simp
    then show ?thesis
      using best_child_divisors_pos[OF nn] cs by (auto simp: decide_divisors_def)
  qed
  show ?thesis using 1 2 3 by blast
qed

theorem divisors_positive_witness:
  "\<exists>rt this' h2 hk ds.
     build_root (row_env 2) (row_player 2) [empty, empty] = (rt, this', h2) \<and>
     sim_loop (row_env 2) this' rt (int 100) h2 = Some (Inr hk) \<and>
     selection_divisors hk (Some rt) = Some ds \<and> (\<forall>d \<in> set ds. 0 < d) \<and>
     (\<forall>d \<in> set (decide_divisors hk rt). 0 < d)"
proof -
  obtain this' h2 hk where br: "build_root (row_env 2) (row_player 2) [empty, empty] = (0, this', h2)"
    and c: "child (nodes h2 0) = [1, 2]"
    and sl: "sim_loop (row_env 2) this' 0 (int 100) h2 = Some (Inr hk)"
    by (rule row_run[of 100])
  have ne: "child (nodes h2 0) \<noteq> []" using c by simp
  note T = divisors_positive[OF br row_who ne sl]
  obtain ds where ds: "selection_divisors hk (Some 0) = Some ds" "\<forall>d \<in> set ds. 0 < d"
    using T by blast
  have dd: "\<forall>d \<in> set (decide_divisors hk 0). 0 < d" using T by simp
  show ?thesis
    by (rule exI[of _ 0], rule exI[of _ this'], rule exI[of _ h2], rule exI[of _ hk],
        rule exI[of _ ds]) (intro conjI br sl ds dd)
qed

text \<open>
  C9. The root is the node at address 0 and its children are the nodes that the one
  expansion created, at the addresses from 1 up to the top of the store. After any
  number of iterations of the loop the store has allocated no further node, the root has
  the same children, every child has the root as parent and no children of its own, and
  selection from the root returns one of these children: the tree is the root and its
  direct children, and nothing at depth two exists.
\<close>

theorem tree_is_root_and_children:
  assumes "build_root E this state = (rt, this', h2)"
  shows "rt = 0 \<and> child (nodes h2 rt) = [1 ..< top h2] \<and>
     ((who this = black \<or> who this = white) \<and> child (nodes h2 rt) \<noteq> [] \<and>
      sim_loop E this' rt (int k) h2 = Some (Inr hk) \<longrightarrow>
        top hk = top h2 \<and> child (nodes hk rt) = [1 ..< top hk] \<and>
        parent (nodes hk rt) = None \<and>
        (\<forall>c \<in> set (child (nodes hk rt)).
           parent (nodes hk c) = Some rt \<and> child (nodes hk c) = []) \<and>
        (\<exists>c \<in> set (child (nodes hk rt)). selection hk (Some rt) = Some (Inr c)))"
proof (intro conjI impI)
  obtain sp e where sh: "shuffle E (space this) (engine this) = (sp, e)"
    by (cases "shuffle E (space this) (engine this)")
  from build_root_props[OF sh, of state] assms
  show rt: "rt = 0" and ch: "child (nodes h2 rt) = [1 ..< top h2]" by auto
  assume a: "(who this = black \<or> who this = white) \<and> child (nodes h2 rt) \<noteq> [] \<and>
      sim_loop E this' rt (int k) h2 = Some (Inr hk)"
  then have w: "who this = black \<or> who this = white" and ne: "child (nodes h2 rt) \<noteq> []"
    and sl: "sim_loop E this' rt (int k) h2 = Some (Inr hk)" by simp_all
  note b = build_root_run[OF assms ne]
  have w': "who this' = black \<or> who this' = white" using w b(2) by simp
  note sf = sim_loop_flat_inv[OF w' b(4) sl]
  have inv: "run_inv E state hk rt" and shp: "same_shape h2 hk" using sf by simp_all
  have g: "grown E state hk rt" using inv by (simp add: run_inv_def)
  show "top hk = top h2" using shp by (simp add: same_shape_def)
  then show "child (nodes hk rt) = [1 ..< top hk]" using shp ch by (simp add: same_shape_def)
  show "parent (nodes hk rt) = None" using g by (simp add: grown_def)
  show "\<forall>c \<in> set (child (nodes hk rt)).
           parent (nodes hk c) = Some rt \<and> child (nodes hk c) = []"
    using g by (simp add: grown_def)
  show "\<exists>c \<in> set (child (nodes hk rt)). selection hk (Some rt) = Some (Inr c)"
    using selection_flat[OF inv] by blast
qed

theorem tree_is_root_and_children_witness:
  "\<exists>this' h2 hk.
     build_root (row_env 2) (row_player 2) [empty, empty] = (0, this', h2) \<and>
     sim_loop (row_env 2) this' 0 (int 100) h2 = Some (Inr hk) \<and>
     top hk = 3 \<and> child (nodes hk 0) = [1, 2] \<and> parent (nodes hk 0) = None \<and>
     parent (nodes hk 1) = Some 0 \<and> child (nodes hk 1) = [] \<and>
     parent (nodes hk 2) = Some 0 \<and> child (nodes hk 2) = [] \<and>
     (selection hk (Some 0) = Some (Inr 1) \<or> selection hk (Some 0) = Some (Inr 2))"
proof -
  obtain this' h2 hk where br: "build_root (row_env 2) (row_player 2) [empty, empty] = (0, this', h2)"
    and c: "child (nodes h2 0) = [1, 2]"
    and sl: "sim_loop (row_env 2) this' 0 (int 100) h2 = Some (Inr hk)"
    by (rule row_run[of 100])
  note T = tree_is_root_and_children[OF br, of 100 hk]
  have hyp: "(who (row_player 2) = black \<or> who (row_player 2) = white) \<and>
      child (nodes h2 0) \<noteq> [] \<and>
      sim_loop (row_env 2) this' 0 (int 100) h2 = Some (Inr hk)"
    using row_who c sl by simp
  note U = T[THEN conjunct2, THEN conjunct2, rule_format, OF hyp]
  have t: "top hk = top h2" using U by (elim conjE)
  have ck: "child (nodes hk 0) = [1 ..< top hk]" using U by (elim conjE)
  have p0: "parent (nodes hk 0) = None" using U by (elim conjE)
  have al: "\<forall>c \<in> set (child (nodes hk 0)). parent (nodes hk c) = Some 0 \<and> child (nodes hk c) = []"
    using U by (elim conjE)
  have se: "\<exists>c \<in> set (child (nodes hk 0)). selection hk (Some 0) = Some (Inr c)"
    using U by (elim conjE)
  have t3: "top hk = 3" unfolding t using br by (rule row_top)
  have "[1 ..< (3::nat)] = [1, 2]" by code_simp
  then have ck2: "child (nodes hk 0) = [1, 2]" unfolding ck t3 .
  have n: "parent (nodes hk 1) = Some 0 \<and> child (nodes hk 1) = [] \<and>
     parent (nodes hk 2) = Some 0 \<and> child (nodes hk 2) = []" using al ck2 by simp
  have s: "selection hk (Some 0) = Some (Inr 1) \<or> selection hk (Some 0) = Some (Inr 2)"
    using se ck2 by auto
  show ?thesis
    by (rule exI[of _ this'], rule exI[of _ h2], rule exI[of _ hk])
       (use br sl t3 ck2 p0 n s in simp)
qed

text \<open>
  C1. (amended) The loop of a move request expands no node. In every iteration the selected
  node is one of the children that the expansion of the root created before the loop; it
  has no children before the iteration and none after it, whether or not a move is
  legal on its board. An iteration allocates no node and changes no list of children.
\<close>

theorem no_expansion_in_loop:
  assumes "build_root E this state = (rt, this', h2)" and "who this = black \<or> who this = white"
    and "child (nodes h2 rt) \<noteq> []" and "sim_loop E this' rt (int k) h2 = Some (Inr hk)"
    and "iteration E this' rt hk = Some (Inr h')"
  shows "\<exists>c \<in> set (child (nodes h2 rt)).
           selection hk (Some rt) = Some (Inr c) \<and>
           child (nodes hk c) = [] \<and> child (nodes h' c) = [] \<and>
           top h' = top h2 \<and> (\<forall>p. child (nodes h' p) = child (nodes h2 p))"
proof -
  note b = build_root_run[OF assms(1,3)]
  have w': "who this' = black \<or> who this' = white" using assms(2) b(2) by simp
  note sf = sim_loop_flat_inv[OF w' b(4) assms(4)]
  have g: "grown E state hk rt" using sf(1) by (simp add: run_inv_def)
  from iteration_flat[OF sf(1) w']
  obtain c r where c: "c \<in> set (child (nodes hk rt))" "selection hk (Some rt) = Some (Inr c)"
    and it: "iteration E this' rt hk = Some (Inr (stepped hk rt c r))"
    using assms(5) by auto
  have h': "h' = stepped hk rt c r" using it assms(5) by simp
  have s1: "same_shape hk h'" unfolding h' by (rule stepped_shape)
  have s2: "same_shape h2 h'" using sf(2) s1 by (rule same_shape_trans)
  have c2: "c \<in> set (child (nodes h2 rt))" using c(1) sf(2) by (simp add: same_shape_def)
  have l: "child (nodes hk c) = []" using g c(1) by (simp add: grown_def)
  then have l': "child (nodes h' c) = []" using s1 by (simp add: same_shape_def)
  have t: "top h' = top h2" using s2 by (simp add: same_shape_def)
  have a: "\<forall>p. child (nodes h' p) = child (nodes h2 p)" using s2 by (simp add: same_shape_def)
  show ?thesis using c2 c(2) l l' t a by blast
qed

theorem no_expansion_in_loop_witness:
  "\<exists>this' h2 hk h'.
     build_root (row_env 2) (row_player 2) [empty, empty] = (0, this', h2) \<and>
     sim_loop (row_env 2) this' 0 (int 0) h2 = Some (Inr hk) \<and>
     iteration (row_env 2) this' 0 hk = Some (Inr h') \<and>
     (\<exists>c \<in> set (child (nodes h2 0)).
        selection hk (Some 0) = Some (Inr c) \<and>
        child (nodes hk c) = [] \<and> child (nodes h' c) = [] \<and>
        top h' = top h2 \<and> (\<forall>p. child (nodes h' p) = child (nodes h2 p)))"
proof -
  obtain this' h2 h1 where br: "build_root (row_env 2) (row_player 2) [empty, empty] = (0, this', h2)"
    and c: "child (nodes h2 0) = [1, 2]"
    and sl: "sim_loop (row_env 2) this' 0 (int 1) h2 = Some (Inr h1)"
    by (rule row_run[of 1])
  have ne: "child (nodes h2 0) \<noteq> []" using c by simp
  have s0: "sim_loop (row_env 2) this' 0 (int 0) h2 = Some (Inr h2)"
    using sim_loop_0[of "row_env 2" this' 0 h2] by simp
  have "sim_loop (row_env 2) this' 0 (int (Suc 0)) h2 = Some (Inr h1)" using sl by simp
  then have "iteration (row_env 2) this' 0 h2 = Some (Inr h1)"
    unfolding sim_loop_Suc using sim_loop_0[of "row_env 2" this' 0]
    by (auto split: option.splits sum.splits)
  note it = this
  note T = no_expansion_in_loop[OF br row_who ne s0 it]
  show ?thesis
    by (rule exI[of _ this'], rule exI[of _ h2], rule exI[of _ h2], rule exI[of _ h1])
       (intro conjI br s0 it T)
qed

text \<open>
  The statement of the specification, that a selected leaf which is not terminal gets
  expanded, fails on the row of two cells: at the end of the request node 1 has been
  selected, either colour could still move on its board, and it has no children.
\<close>

theorem expand_on_demand_counterexample:
  "final_store (row_env 2) (row_player 2) [empty, empty] \<noteq> None \<and>
   1 \<le> visit (nodes (the (final_store (row_env 2) (row_player 2) [empty, empty])) 1) \<and>
   \<not> no_move (row_env 2) black
       (bd (nodes (the (final_store (row_env 2) (row_player 2) [empty, empty])) 1)) \<and>
   \<not> no_move (row_env 2) white
       (bd (nodes (the (final_store (row_env 2) (row_player 2) [empty, empty])) 1)) \<and>
   child (nodes (the (final_store (row_env 2) (row_player 2) [empty, empty])) 1) = []"
proof -
  obtain a this' h2 h3 where
    br: "build_root (row_env 2) (row_player 2) [empty, empty] = (0, this', h2)"
    and b: "bd (nodes h2 1) = [black, empty]"
    and fs: "final_store (row_env 2) (row_player 2) [empty, empty] = Some h3"
    and inv: "run_inv (row_env 2) [empty, empty] h3 0" and sh: "same_shape h2 h3"
    and v: "visit (nodes h3 0) = 100" and c: "child (nodes h3 0) = [1, 2]"
    by (rule row_final)
  have "1 \<le> visit (nodes h3 0)" using v by simp
  then have "1 \<le> visit (nodes h3 (hd (child (nodes h3 0))))"
    using run_inv_first_visited(1)[OF inv] by simp
  then have v1: "1 \<le> visit (nodes h3 1)" unfolding c by simp
  have b3: "bd (nodes h3 1) = [black, empty]" using sh b by (simp add: same_shape_def)
  have "apply_place (row_env 2) 1 black [black, empty] \<noteq> None"
    "apply_place (row_env 2) 1 white [black, empty] \<noteq> None"
    by (simp_all add: row_env_def)
  then have nm: "\<not> no_move (row_env 2) black [black, empty]"
    "\<not> no_move (row_env 2) white [black, empty]"
    unfolding no_move_def by (auto simp: row_env_def intro!: exI[of _ 1])
  have "1 \<in> set (child (nodes h3 0))" unfolding c by simp
  then have l: "child (nodes h3 1) = []" using inv by (simp add: run_inv_def grown_def)
  show ?thesis unfolding fs using v1 b3 nm l by simp
qed

end
